theory Spec2Isabelle
  imports Main "HOL-Library.Word" "HOL-Library.Multiset"
begin

unbundle bit_operations_syntax

section \<open>Data model of \<open>AttributeType\<close>\<close>

text \<open>
  The class \<open>AttributeType\<close> of \<open>attribute.cpp\<close> is a tagged union: a tag \<open>kind_\<close>, a
  count \<open>size_\<close> and a union \<open>u_\<close>. Its declaration (\<open>attribute.h\<close>) is not among the
  sources, so the type below is
  Modelled from the spec: section 3 (kinds Nil, Boolean, SignedInt, UnsignedInt, Float,
  String, Data, List, Dict, InterfaceRef; a Dict is an array of (String key, value) pairs),
  with the names the source file uses (\<open>Attr_String\<close>, \<open>is_list()\<close>, ...), and the tag
  \<open>Attr_Invalid\<close> that \<open>attr_free\<close> leaves behind.

  One constructor per tag carries the payload that tag selects, so \<open>kind_\<close> is the
  constructor and \<open>size_\<close> is the length of the payload. Integers and floats carry their
  64-bit pattern. A String carries the bytes before its terminating NUL. A List or Dict
  carries the first \<open>size_\<close> cells of its array; cells between \<open>size_\<close> and the allocated
  capacity are not part of the value.
\<close>

type_synonym byte = "8 word"

datatype IFace = IFace (getFaceName: string) (getObjName: string)

datatype AttributeType =
    is_invalid: Attr_Invalid
  | is_nil: Attr_Nil
  | is_bool: Attr_Bool bool
  | is_int64: Attr_Integer "64 word"
  | is_uint64: Attr_UInteger "64 word"
  | is_floating: Attr_Floating "64 word"
  | is_string: Attr_String string
  | is_data: Attr_Data "byte list"
  | is_list: Attr_List "AttributeType list"
  | is_dict: Attr_Dict "(string \<times> AttributeType) list"
  | is_iface: Attr_Interface IFace

fun attr_size :: "AttributeType \<Rightarrow> nat" where
  "attr_size (Attr_String s) = length s"
| "attr_size (Attr_Data bs) = length bs"
| "attr_size (Attr_List xs) = length xs"
| "attr_size (Attr_Dict ps) = length ps"
| "attr_size v = 0"

text \<open>
  What the C++ leaves undefined is an error value of the model: a read outside a buffer
  or outside the cells of an array (with the offending index), and an access to a member
  of the union that the tag does not select. \<open>Out_of_fuel\<close> is the answer of a loop that
  was cut off (only the decoder has loops that may run forever).
\<close>

datatype error = Out_of_fuel | Out_of_bounds nat | Wrong_union_member

text \<open>The messages handed to \<open>RISCV_printf(NULL, LOG_ERROR, ...)\<close>, in the order printed.\<close>

datatype diagnostic =
    Non_indexed_attribute_type
  | Data_index_out_of_range nat
  | Remove_index_out_of_range
  | Not_supported_attribute_type_for_sorting
  | Sort_algorithm_can_applied_only_to_list_attribute

subsection \<open>C strings\<close>

text \<open>
  A \<open>const char *\<close> argument is read up to its first NUL. \<open>strcmp\<close> compares the bytes as
  unsigned values; only the sign of its result is specified, and the source only tests
  \<open>== 0\<close> and \<open><= 0\<close>.
\<close>

definition c_str :: "string \<Rightarrow> string" where
  "c_str s = takeWhile (\<lambda>c. c \<noteq> CHR 0x00) s"

fun cmp_bytes :: "string \<Rightarrow> string \<Rightarrow> int" where
  "cmp_bytes [] [] = 0"
| "cmp_bytes [] (y # ys) = - 1"
| "cmp_bytes (x # xs) [] = 1"
| "cmp_bytes (x # xs) (y # ys) =
     (if (of_char x :: nat) < of_char y then - 1
      else if (of_char y :: nat) < of_char x then 1
      else cmp_bytes xs ys)"

definition strcmp :: "string \<Rightarrow> string \<Rightarrow> int" where
  "strcmp a b = cmp_bytes (c_str a) (c_str b)"

subsection \<open>Release, constructors and copies\<close>

definition attr_free :: "AttributeType \<Rightarrow> AttributeType" where
  "attr_free v = Attr_Invalid"

text \<open>\<open>make_string(value)\<close>: \<open>None\<close> is the null pointer.\<close>

definition make_string :: "string option \<Rightarrow> AttributeType" where
  "make_string val = (case val of Some s \<Rightarrow> Attr_String (c_str s) | None \<Rightarrow> Attr_Nil)"

definition make_data :: "nat \<Rightarrow> byte list \<Rightarrow> error + AttributeType" where
  "make_data n data =
     (if n \<le> length data then Inr (Attr_Data (take n data)) else Inl (Out_of_bounds (length data)))"

definition make_dict :: "AttributeType" where
  "make_dict = Attr_Dict []"

text \<open>
  \<open>realloc_list(size)\<close> on a List. When the number of chunks grows, the new array is
  zero-filled past the old cells, and a zero-filled cell has the tag \<open>attr_free\<close> leaves
  (\<open>Attr_Invalid\<close>, size 0, payload 0). When it does not grow, only \<open>size_\<close> is set and
  the cells gained are the ones the array already holds past the old size: zero as long
  as the List has only grown since its array was allocated, which is the case this
  definition covers (the decoder grows a fresh List one cell at a time). Cells that an
  earlier shrink left in the array would come back instead.
\<close>

definition realloc_list :: "AttributeType \<Rightarrow> nat \<Rightarrow> error + AttributeType" where
  "realloc_list a n =
     (case a of
        Attr_List xs \<Rightarrow> Inr (Attr_List (take n xs @ replicate (n - length xs) Attr_Invalid))
      | _ \<Rightarrow> Inl Wrong_union_member)"

definition make_list :: "nat \<Rightarrow> AttributeType" where
  "make_list n = Attr_List (replicate n Attr_Invalid)"

fun clone :: "AttributeType \<Rightarrow> AttributeType" where
  "clone (Attr_String s) = make_string (Some s)"
| "clone (Attr_Data bs) = Attr_Data bs"
| "clone (Attr_List xs) = Attr_List (map clone xs)"
| "clone (Attr_Dict ps) = Attr_Dict (map (\<lambda>(k, v). (c_str k, clone v)) ps)"
| "clone v = v"

subsection \<open>Indexing\<close>

text \<open>
  \<open>operator[](unsigned)\<close>, \<open>operator[](const char *)\<close> and \<open>operator()(unsigned)\<close> return
  references. A reference names the cell it designates; \<open>load\<close> and \<open>store\<close> read and
  write through it. \<open>Ref_NilAttribute\<close> is the file's static \<open>NilAttribute\<close>.
\<close>

datatype attr_ref = Ref_list nat | Ref_dict_value nat | Ref_NilAttribute

definition op_index :: "AttributeType \<Rightarrow> nat \<Rightarrow> attr_ref \<times> diagnostic list" where
  "op_index a idx =
     (if is_list a then (Ref_list idx, [])
      else if is_dict a then (Ref_dict_value idx, [])
      else (Ref_NilAttribute, [Non_indexed_attribute_type]))"

fun load :: "AttributeType \<Rightarrow> attr_ref \<Rightarrow> error + AttributeType" where
  "load a Ref_NilAttribute = Inr Attr_Nil"
| "load (Attr_List xs) (Ref_list i) =
     (if i < length xs then Inr (xs ! i) else Inl (Out_of_bounds i))"
| "load (Attr_Dict ps) (Ref_dict_value i) =
     (if i < length ps then Inr (snd (ps ! i)) else Inl (Out_of_bounds i))"
| "load a r = Inl Wrong_union_member"

fun store :: "AttributeType \<Rightarrow> attr_ref \<Rightarrow> AttributeType \<Rightarrow> error + AttributeType" where
  "store (Attr_List xs) (Ref_list i) v =
     (if i < length xs then Inr (Attr_List (xs[i := v])) else Inl (Out_of_bounds i))"
| "store (Attr_Dict ps) (Ref_dict_value i) v =
     (if i < length ps then Inr (Attr_Dict (ps[i := (fst (ps ! i), v)]))
      else Inl (Out_of_bounds i))"
| "store a r v = Inl Wrong_union_member"

text \<open>
  \<open>operator[](const char *key)\<close>: the scan over the pairs, then the pair appended by
  \<open>realloc_dict(size()+1)\<close>, \<open>key_.make_string(key)\<close> and \<open>value_.make_nil()\<close>. The source
  does not look at the tag; on a value that is not a Dict it reads or overwrites the
  union through \<open>u_.dict\<close>.
\<close>

fun find_key :: "(string \<times> AttributeType) list \<Rightarrow> string \<Rightarrow> nat \<Rightarrow> nat option" where
  "find_key [] key i = None"
| "find_key (p # ps) key i =
     (if strcmp key (fst p) = 0 then Some i else find_key ps key (Suc i))"

definition op_key :: "AttributeType \<Rightarrow> string \<Rightarrow> error + (AttributeType \<times> attr_ref)" where
  "op_key a key =
     (case a of
        Attr_Dict ps \<Rightarrow>
          (case find_key ps key 0 of
             Some i \<Rightarrow> Inr (a, Ref_dict_value i)
           | None \<Rightarrow> Inr (Attr_Dict (ps @ [(c_str key, Attr_Nil)]), Ref_dict_value (length ps)))
      | _ \<Rightarrow> Inl Wrong_union_member)"

fun has_key_loop :: "(string \<times> AttributeType) list \<Rightarrow> string \<Rightarrow> bool" where
  "has_key_loop [] key = False"
| "has_key_loop (p # ps) key =
     (if strcmp (fst p) key = 0 \<and> \<not> is_nil (snd p) then True else has_key_loop ps key)"

definition has_key :: "AttributeType \<Rightarrow> string \<Rightarrow> error + bool" where
  "has_key a key =
     (case a of
        Attr_Dict ps \<Rightarrow> Inr (has_key_loop ps key)
      | _ \<Rightarrow> if attr_size a = 0 then Inr False else Inl Wrong_union_member)"

text \<open>
  \<open>operator()(unsigned idx)\<close> returns a reference into one of the two byte stores of the
  union: the pointer \<open>u_.data\<close> or the inline array \<open>u_.data_bytes\<close>.
\<close>

datatype byte_ref = Ref_data nat | Ref_data_bytes nat

definition op_call :: "AttributeType \<Rightarrow> nat \<Rightarrow> byte_ref \<times> diagnostic list" where
  "op_call a idx =
     (if idx > attr_size a then (Ref_data 0, [Data_index_out_of_range idx])
      else if attr_size a > 8 then (Ref_data idx, [])
      else (Ref_data_bytes idx, []))"

text \<open>
  \<open>make_data\<close> keeps at most 8 bytes inline and more than 8 behind the pointer, so each
  store is readable only for the sizes that use it, and only at the bytes the value has.
\<close>

fun load_byte :: "AttributeType \<Rightarrow> byte_ref \<Rightarrow> error + byte" where
  "load_byte (Attr_Data bs) (Ref_data i) =
     (if length bs \<le> 8 then Inl Wrong_union_member
      else if i < length bs then Inr (bs ! i) else Inl (Out_of_bounds i))"
| "load_byte (Attr_Data bs) (Ref_data_bytes i) =
     (if 8 < length bs then Inl Wrong_union_member
      else if i < length bs then Inr (bs ! i) else Inl (Out_of_bounds i))"
| "load_byte a r = Inl Wrong_union_member"

section \<open>List mutation\<close>

text \<open>
  \<open>swap_list_item(n, m)\<close> exchanges \<open>size_\<close>, \<open>kind_\<close> and the 8 bytes of \<open>u_\<close> of the
  cells \<open>u_.list[n]\<close> and \<open>u_.list[m]\<close>, which is the whole cell.
\<close>

definition swap_list_item :: "AttributeType \<Rightarrow> nat \<Rightarrow> nat \<Rightarrow> error + AttributeType" where
  "swap_list_item a n m =
     (if n = m then Inr a
      else case a of
        Attr_List xs \<Rightarrow>
          (if \<not> n < length xs then Inl (Out_of_bounds n)
           else if \<not> m < length xs then Inl (Out_of_bounds m)
           else Inr (Attr_List (xs[n := xs ! m, m := xs ! n])))
      | _ \<Rightarrow> Inl Wrong_union_member)"

text \<open>
  \<open>size_ -= 1\<close> on a List or Dict cuts the last cell off the value. The array is not
  touched: the cell stays in the allocation just past the new size, with whatever it
  held. \<open>cut_last_cell\<close> gives the shortened value together with that cell, read
  through \<open>operator[]\<close> before the cut.
\<close>

definition drop_last_cell :: "AttributeType \<Rightarrow> error + AttributeType" where
  "drop_last_cell a =
     (case a of
        Attr_List xs \<Rightarrow> Inr (Attr_List (butlast xs))
      | Attr_Dict ps \<Rightarrow> Inr (Attr_Dict (butlast ps))
      | _ \<Rightarrow> Inl Wrong_union_member)"

definition cut_last_cell :: "AttributeType \<Rightarrow> error + (AttributeType \<times> AttributeType)" where
  "cut_last_cell a =
     (case load a (fst (op_index a (attr_size a - 1))) of
        Inl e \<Rightarrow> Inl e
      | Inr cell \<Rightarrow>
          (case drop_last_cell a of
             Inl e \<Rightarrow> Inl e
           | Inr a1 \<Rightarrow> Inr (a1, cell)))"

text \<open>
  \<open>remove_from_list(idx)\<close>: the guard, \<open>(*this)[idx].attr_free()\<close>, then the cut, after
  the swap with the last cell when \<open>idx\<close> is not the last index. The heap block that
  \<open>attr_free\<close> hands to \<open>RISCV_free\<close> is not part of the model; what \<open>attr_free\<close> leaves
  in the cell is. The result is the value, the cell cut off (\<open>None\<close> when nothing was
  cut) and the diagnostics.
\<close>

definition remove_from_list ::
  "AttributeType \<Rightarrow> nat \<Rightarrow> error + (AttributeType \<times> AttributeType option \<times> diagnostic list)" where
  "remove_from_list a idx =
     (if idx \<ge> attr_size a then Inr (a, None, [Remove_index_out_of_range])
      else
        case load a (fst (op_index a idx)) of
          Inl e \<Rightarrow> Inl e
        | Inr item \<Rightarrow>
        case store a (fst (op_index a idx)) (attr_free item) of
          Inl e \<Rightarrow> Inl e
        | Inr a1 \<Rightarrow>
            if idx = attr_size a1 - 1 then
              (case cut_last_cell a1 of
                 Inl e \<Rightarrow> Inl e
               | Inr (a2, cell) \<Rightarrow> Inr (a2, Some cell, snd (op_index a idx)))
            else if idx < attr_size a1 then
              (case swap_list_item a1 idx (attr_size a1 - 1) of
                 Inl e \<Rightarrow> Inl e
               | Inr a2 \<Rightarrow>
                   (case cut_last_cell a2 of
                      Inl e \<Rightarrow> Inl e
                    | Inr (a3, cell) \<Rightarrow> Inr (a3, Some cell, snd (op_index a idx))))
            else Inr (a1, None, snd (op_index a idx)))"

text \<open>
  \<open>trim_list(start, end)\<close>. The loop counter starts at \<open>start\<close>; the bound \<open>attr_size - end\<close>
  is unsigned 32-bit arithmetic. In the body, \<open>u_.list[start + i].attr_free()\<close> comes
  first; the assignment after it is \<open>operator=\<close>, which does nothing when both sides are
  the same cell and clones otherwise.
\<close>

function trim_loop :: "nat \<Rightarrow> nat \<Rightarrow> nat \<Rightarrow> nat \<Rightarrow> AttributeType list \<Rightarrow> error + AttributeType list" where
  "trim_loop start fin bound i xs =
     (if i < bound then
        (if \<not> start + i < length xs then Inl (Out_of_bounds (start + i))
         else if \<not> fin + i < length xs then Inl (Out_of_bounds (fin + i))
         else trim_loop start fin bound (Suc i)
                (xs[start + i := (if start + i = fin + i then Attr_Invalid
                                  else clone (xs ! (fin + i)))]))
      else Inr xs)"
  by pat_completeness auto
termination
  by (relation "measure (\<lambda>(start, fin, bound, i, xs). bound - i)") auto

definition trim_list :: "AttributeType \<Rightarrow> nat \<Rightarrow> nat \<Rightarrow> error + AttributeType" where
  "trim_list a start fin =
     (case a of
        Attr_List xs \<Rightarrow>
          (case trim_loop start fin
                  (if fin \<le> length xs then length xs - fin else 2 ^ 32 + length xs - fin)
                  start xs of
             Inl e \<Rightarrow> Inl e
           | Inr ys \<Rightarrow>
               if start \<le> fin \<and> fin - start \<le> length ys
               then Inr (Attr_List (take (length ys - (fin - start)) ys))
               else Inl (Out_of_bounds (length ys)))
      | _ \<Rightarrow> Inl Wrong_union_member)"

section \<open>Basic facts\<close>

lemma cmp_bytes_eq_0: "cmp_bytes a b = 0 \<longleftrightarrow> a = b"
  by (induction a b rule: cmp_bytes.induct) (auto simp: of_char_eq_iff)

lemma strcmp_eq_0: "strcmp a b = 0 \<longleftrightarrow> c_str a = c_str b"
  by (simp add: strcmp_def cmp_bytes_eq_0)

lemma c_str_idem: "c_str (c_str s) = c_str s"
  by (simp add: c_str_def)

lemma find_key_None: "find_key ps key i = None \<longleftrightarrow> (\<forall>p \<in> set ps. c_str (fst p) \<noteq> c_str key)"
  by (induction ps arbitrary: i) (auto simp: strcmp_eq_0)

lemma find_key_append_new:
  "find_key ps key i = None \<Longrightarrow> find_key (ps @ [(c_str key, v)]) key i = Some (i + length ps)"
  by (induction ps arbitrary: i) (auto simp: strcmp_eq_0 c_str_idem split: if_splits)

lemma has_key_loop_iff:
  "has_key_loop ps key \<longleftrightarrow> (\<exists>p \<in> set ps. c_str (fst p) = c_str key \<and> \<not> is_nil (snd p))"
  by (induction ps) (auto simp: strcmp_eq_0)

section \<open>Results and accessors\<close>

text \<open>
  Results are threaded with \<open>and_then\<close>: the first error ends the computation, as the
  undefined behaviour it stands for would.
\<close>

definition and_then :: "error + 'a \<Rightarrow> ('a \<Rightarrow> error + 'b) \<Rightarrow> error + 'b" where
  "and_then m f = (case m of Inl e \<Rightarrow> Inl e | Inr x \<Rightarrow> f x)"

lemma and_then_simps [simp]:
  "and_then (Inl e) f = Inl e"
  "and_then (Inr x) f = f x"
  by (simp_all add: and_then_def)

lemma and_then_cong [fundef_cong]:
  "m = m' \<Longrightarrow> (\<And>x. m' = Inr x \<Longrightarrow> f x = f' x) \<Longrightarrow> and_then m f = and_then m' f'"
  by (cases m') (simp_all add: and_then_def)

text \<open>
  The accessors \<open>to_string()\<close>, \<open>to_int64()\<close> and \<open>to_uint64()\<close> (declared with the class)
  read the union member of their name; \<open>to_int64\<close> and \<open>to_uint64\<close> read the same 64 bits
  as a signed and as an unsigned number.
\<close>

fun to_string :: "AttributeType \<Rightarrow> error + string" where
  "to_string (Attr_String s) = Inr s"
| "to_string v = Inl Wrong_union_member"

fun to_int64 :: "AttributeType \<Rightarrow> error + int" where
  "to_int64 (Attr_Integer w) = Inr (sint w)"
| "to_int64 (Attr_UInteger w) = Inr (sint w)"
| "to_int64 v = Inl Wrong_union_member"

fun to_uint64 :: "AttributeType \<Rightarrow> error + int" where
  "to_uint64 (Attr_Integer w) = Inr (uint w)"
| "to_uint64 (Attr_UInteger w) = Inr (uint w)"
| "to_uint64 v = Inl Wrong_union_member"


section \<open>Ordering\<close>

text \<open>
  A C \<open>int\<close> passed where \<open>unsigned\<close> is expected: a negative value wraps. Indices and
  sizes are taken to fit in \<open>int\<close>, so nothing else wraps.
\<close>

definition to_unsigned :: "int \<Rightarrow> nat" where
  "to_unsigned x = (if x < 0 then nat (x + 2 ^ 32) else nat x)"

definition string_le :: "AttributeType \<Rightarrow> AttributeType \<Rightarrow> error + bool" where
  "string_le a b = and_then (to_string a) (\<lambda>s. and_then (to_string b) (\<lambda>t. Inr (strcmp s t \<le> 0)))"

definition int64_le :: "AttributeType \<Rightarrow> AttributeType \<Rightarrow> error + bool" where
  "int64_le a b = and_then (to_int64 a) (\<lambda>x. and_then (to_int64 b) (\<lambda>y. Inr (x \<le> y)))"

definition uint64_le :: "AttributeType \<Rightarrow> AttributeType \<Rightarrow> error + bool" where
  "uint64_le a b = and_then (to_uint64 a) (\<lambda>x. and_then (to_uint64 b) (\<lambda>y. Inr (x \<le> y)))"

text \<open>\<open>v[lst_idx]\<close> read: \<open>operator[](unsigned)\<close> on \<open>v\<close>, then the cell.\<close>

definition sub_item :: "AttributeType \<Rightarrow> int \<Rightarrow> error + AttributeType" where
  "sub_item v lst_idx = load v (fst (op_index v (to_unsigned lst_idx)))"

text \<open>
  The body of the loop of \<open>partition\<close> up to \<open>do_swap\<close>: \<open>Some b\<close> is \<open>do_swap = b\<close>,
  \<open>None\<close> is the last branch (the diagnostic and the early return). \<open>pivot\<close> is the
  pointer \<open>&(*A)[hi]\<close>, read when a comparison needs it.
\<close>

definition do_swap_of :: "AttributeType \<Rightarrow> AttributeType \<Rightarrow> attr_ref \<Rightarrow> int \<Rightarrow> error + bool option" where
  "do_swap_of A item pivot lst_idx =
     (if is_string item then
        and_then (load A pivot) (\<lambda>pv. and_then (string_le item pv) (\<lambda>b. Inr (Some b)))
      else if is_int64 item then
        and_then (load A pivot) (\<lambda>pv. and_then (int64_le item pv) (\<lambda>b. Inr (Some b)))
      else if is_uint64 item then
        and_then (load A pivot) (\<lambda>pv. and_then (uint64_le item pv) (\<lambda>b. Inr (Some b)))
      else if is_list item then
        and_then (sub_item item lst_idx) (\<lambda>t1.
          if is_string t1 then
            and_then (load A pivot) (\<lambda>pv. and_then (sub_item pv lst_idx) (\<lambda>p1.
              and_then (string_le t1 p1) (\<lambda>b. Inr (Some b))))
          else if is_int64 t1 then
            and_then (load A pivot) (\<lambda>pv. and_then (sub_item pv lst_idx) (\<lambda>p1.
              and_then (int64_le t1 p1) (\<lambda>b. Inr (Some b))))
          else if is_uint64 t1 then
            and_then (load A pivot) (\<lambda>pv. and_then (sub_item pv lst_idx) (\<lambda>p1.
              and_then (uint64_le t1 p1) (\<lambda>b. Inr (Some b))))
          else Inr (Some False))
      else Inr None)"

function partition_loop :: "AttributeType \<Rightarrow> attr_ref \<Rightarrow> int \<Rightarrow> int \<Rightarrow> int \<Rightarrow> int \<Rightarrow> diagnostic list
    \<Rightarrow> error + (AttributeType \<times> int \<times> diagnostic list)" where
  "partition_loop A pivot hi lst_idx i j log =
     (if j < hi then
        and_then (load A (fst (op_index A (to_unsigned j)))) (\<lambda>item.
        and_then (do_swap_of A item pivot lst_idx) (\<lambda>d.
          case d of
            None \<Rightarrow>
              Inr (A, i + 1, log @ snd (op_index A (to_unsigned j))
                               @ [Not_supported_attribute_type_for_sorting])
          | Some True \<Rightarrow>
              and_then (swap_list_item A (to_unsigned (i + 1)) (to_unsigned j)) (\<lambda>A'.
                partition_loop A' pivot hi lst_idx (i + 1) (j + 1)
                  (log @ snd (op_index A (to_unsigned j))))
          | Some False \<Rightarrow>
              partition_loop A pivot hi lst_idx i (j + 1)
                (log @ snd (op_index A (to_unsigned j)))))
      else
        and_then (swap_list_item A (to_unsigned (i + 1)) (to_unsigned hi)) (\<lambda>A'.
          Inr (A', i + 1, log)))"
  by pat_completeness auto
termination
  by (relation "measure (\<lambda>(A, pivot, hi, lst_idx, i, j, log). nat (hi - j))") auto

declare partition_loop.simps [simp del]

definition partition_attr :: "AttributeType \<Rightarrow> int \<Rightarrow> int \<Rightarrow> int \<Rightarrow> diagnostic list
    \<Rightarrow> error + (AttributeType \<times> int \<times> diagnostic list)" where
  "partition_attr A lo hi lst_idx log =
     partition_loop A (fst (op_index A (to_unsigned hi))) hi lst_idx (lo - 1) lo
       (log @ snd (op_index A (to_unsigned hi)))"

lemma partition_loop_done:
  "\<not> j < hi \<Longrightarrow> partition_loop A pivot hi lst_idx i j log =
     and_then (swap_list_item A (to_unsigned (i + 1)) (to_unsigned hi)) (\<lambda>A'. Inr (A', i + 1, log))"
  by (subst partition_loop.simps) simp

lemma partition_loop_step:
  "j < hi \<Longrightarrow> load A (fst (op_index A (to_unsigned j))) = Inr item \<Longrightarrow>
   do_swap_of A item pivot lst_idx = Inr d \<Longrightarrow>
   partition_loop A pivot hi lst_idx i j log =
     (case d of
        None \<Rightarrow> Inr (A, i + 1, log @ snd (op_index A (to_unsigned j))
                         @ [Not_supported_attribute_type_for_sorting])
      | Some True \<Rightarrow>
          and_then (swap_list_item A (to_unsigned (i + 1)) (to_unsigned j)) (\<lambda>A'.
            partition_loop A' pivot hi lst_idx (i + 1) (j + 1)
              (log @ snd (op_index A (to_unsigned j))))
      | Some False \<Rightarrow>
          partition_loop A pivot hi lst_idx i (j + 1) (log @ snd (op_index A (to_unsigned j))))"
  by (subst partition_loop.simps) simp

lemma partition_loop_error:
  "j < hi \<Longrightarrow> partition_loop A pivot hi lst_idx i j log = Inr r \<Longrightarrow>
   \<exists>item d. load A (fst (op_index A (to_unsigned j))) = Inr item \<and>
     do_swap_of A item pivot lst_idx = Inr d"
  apply (subst (asm) partition_loop.simps)
  apply (cases "load A (fst (op_index A (to_unsigned j)))")
   apply simp
  apply simp
  subgoal for item
    apply (cases "do_swap_of A item pivot lst_idx")
     apply simp_all
    done
  done


lemma partition_loop_range:
  "partition_loop A pivot hi lst_idx i j log = Inr (A', p, log') \<Longrightarrow> i < j \<Longrightarrow> j \<le> hi
     \<Longrightarrow> i < p \<and> p \<le> hi"
proof (induction "nat (hi - j)" arbitrary: A i j log)
  case 0
  then have nj: "\<not> j < hi" by simp
  from "0.prems"(1) show ?case
    unfolding partition_loop_done [OF nj] using "0.prems"(2,3)
    by (cases "swap_list_item A (to_unsigned (i + 1)) (to_unsigned hi)") auto
next
  case (Suc n)
  then have jh: "j < hi" by simp
  from partition_loop_error [OF jh Suc.prems(1)] obtain item d where
    it: "load A (fst (op_index A (to_unsigned j))) = Inr item" and
    d: "do_swap_of A item pivot lst_idx = Inr d" by blast
  note st = partition_loop_step [OF jh it d, of i log]
  have n: "n = nat (hi - (j + 1))" using Suc.hyps(2) by simp
  show ?case
  proof (cases d)
    case None
    with Suc.prems st jh show ?thesis by auto
  next
    case (Some b)
    show ?thesis
    proof (cases b)
      case True
      show ?thesis
      proof (cases "swap_list_item A (to_unsigned (i + 1)) (to_unsigned j)")
        case (Inl e)
        with Suc.prems(1) st Some True show ?thesis by simp
      next
        case (Inr A1)
        with Suc.prems(1) st Some True have
          r: "partition_loop A1 pivot hi lst_idx (i + 1) (j + 1)
                (log @ snd (op_index A (to_unsigned j))) = Inr (A', p, log')" by simp
        from Suc.hyps(1) [OF n r] Suc.prems(2) jh show ?thesis by simp
      qed
    next
      case False
      with Suc.prems(1) st Some have
        r: "partition_loop A pivot hi lst_idx i (j + 1)
              (log @ snd (op_index A (to_unsigned j))) = Inr (A', p, log')" by simp
      from Suc.hyps(1) [OF n r] Suc.prems(2) jh show ?thesis by simp
    qed
  qed
qed

lemma partition_attr_range:
  assumes a: "partition_attr A lo hi lst_idx log = Inr (A', p, log')" and b: "lo \<le> hi"
  shows "lo \<le> p \<and> p \<le> hi"
proof -
  have "lo - 1 < p \<and> p \<le> hi"
    by (rule partition_loop_range [OF a [unfolded partition_attr_def]]) (use b in simp_all)
  then show ?thesis by simp
qed

function quicksort :: "AttributeType \<Rightarrow> int \<Rightarrow> int \<Rightarrow> int \<Rightarrow> diagnostic list
    \<Rightarrow> error + (AttributeType \<times> diagnostic list)" where
  "quicksort A lo hi lst_idx log =
     (if lo \<ge> hi then Inr (A, log)
      else
        case partition_attr A lo hi lst_idx log of
          Inl e \<Rightarrow> Inl e
        | Inr (A1, p, log1) \<Rightarrow>
            (case quicksort A1 lo (p - 1) lst_idx log1 of
               Inl e \<Rightarrow> Inl e
             | Inr (A2, log2) \<Rightarrow> quicksort A2 (p + 1) hi lst_idx log2))"
  by pat_completeness auto
termination
proof (relation "measure (\<lambda>(A, lo, hi, lst_idx, log). nat (hi - lo))")
  show "wf (measure (\<lambda>(A, lo, hi, lst_idx, log). nat (hi - lo)))" by simp
next
  fix A lo hi lst_idx log x2 A1 y p log1
  assume "\<not> hi \<le> lo" "partition_attr A lo hi lst_idx log = Inr x2" "(A1, y) = x2" "(p, log1) = y"
  then have "partition_attr A lo hi lst_idx log = Inr (A1, p, log1)" by simp
  from partition_attr_range [OF this] \<open>\<not> hi \<le> lo\<close>
  show "((A1, lo, p - 1, lst_idx, log1), A, lo, hi, lst_idx, log)
          \<in> measure (\<lambda>(A, lo, hi, lst_idx, log). nat (hi - lo))"
    by simp
next
  fix A lo hi lst_idx log x2 A1 y p log1 x2a A2 log2
  assume "\<not> hi \<le> lo" "partition_attr A lo hi lst_idx log = Inr x2" "(A1, y) = x2" "(p, log1) = y"
  then have "partition_attr A lo hi lst_idx log = Inr (A1, p, log1)" by simp
  from partition_attr_range [OF this] \<open>\<not> hi \<le> lo\<close>
  show "((A2, p + 1, hi, lst_idx, log2), A, lo, hi, lst_idx, log)
          \<in> measure (\<lambda>(A, lo, hi, lst_idx, log). nat (hi - lo))"
    by simp
qed

declare quicksort.simps [simp del]

text \<open>\<open>AttributeType::sort(int idx)\<close>: there is no \<open>return\<close> after the diagnostic.\<close>

definition sort_attr :: "AttributeType \<Rightarrow> int \<Rightarrow> error + (AttributeType \<times> diagnostic list)" where
  "sort_attr a idx =
     quicksort a 0 (int (attr_size a) - 1) idx
       (if \<not> is_list a then [Sort_algorithm_can_applied_only_to_list_attribute] else [])"

subsection \<open>Sorting a List of one comparable kind\<close>

text \<open>
  The order the claim about sorting speaks of: Strings by \<open>strcmp\<close>, signed integers as
  signed and unsigned integers as unsigned numbers. Values of different kinds, or of
  another kind, are not related.
\<close>

fun attr_le :: "AttributeType \<Rightarrow> AttributeType \<Rightarrow> bool" where
  "attr_le (Attr_String s) (Attr_String t) = (strcmp s t \<le> 0)"
| "attr_le (Attr_Integer a) (Attr_Integer b) = (sint a \<le> sint b)"
| "attr_le (Attr_UInteger a) (Attr_UInteger b) = (uint a \<le> uint b)"
| "attr_le a b = False"

definition homogeneous :: "AttributeType set \<Rightarrow> bool" where
  "homogeneous S = ((\<forall>x \<in> S. is_string x) \<or> (\<forall>x \<in> S. is_int64 x) \<or> (\<forall>x \<in> S. is_uint64 x))"

lemma cmp_bytes_total: "cmp_bytes a b \<le> 0 \<or> cmp_bytes b a \<le> 0"
  by (induction a b rule: cmp_bytes.induct) auto

lemma cmp_bytes_trans:
  "cmp_bytes a b \<le> 0 \<Longrightarrow> cmp_bytes b c \<le> 0 \<Longrightarrow> cmp_bytes a c \<le> 0"
proof (induction a arbitrary: b c)
  case Nil
  then show ?case by (cases c) simp_all
next
  case (Cons x a)
  from Cons.prems obtain y b' where b: "b = y # b'" by (cases b) auto
  from Cons.prems b obtain z c' where c: "c = z # c'" by (cases c) auto
  from Cons.prems Cons.IH [of b' c'] show ?case
    unfolding b c by (auto split: if_splits)
qed

lemma attr_le_total:
  "homogeneous S \<Longrightarrow> a \<in> S \<Longrightarrow> b \<in> S \<Longrightarrow> attr_le a b \<or> attr_le b a"
  unfolding homogeneous_def
  by (cases a; cases b) (auto simp: strcmp_def cmp_bytes_total)

lemma attr_le_trans:
  "attr_le a b \<Longrightarrow> attr_le b c \<Longrightarrow> attr_le a c"
  by (cases a; cases b; cases c) (auto simp: strcmp_def intro: cmp_bytes_trans)

lemma swap_list_item_List:
  "a < length xs \<Longrightarrow> b < length xs \<Longrightarrow>
     swap_list_item (Attr_List xs) a b = Inr (Attr_List (xs[a := xs ! b, b := xs ! a]))"
  by (simp add: swap_list_item_def)

lemma do_swap_of_homogeneous:
  assumes "homogeneous (set xs)" "item \<in> set xs" "h < length xs"
  shows "do_swap_of (Attr_List xs) item (Ref_list h) lst_idx = Inr (Some (attr_le item (xs ! h)))"
proof -
  have pv: "xs ! h \<in> set xs" using assms(3) by simp
  from assms(1) consider "is_string item \<and> is_string (xs ! h)"
    | "is_int64 item \<and> is_int64 (xs ! h)" | "is_uint64 item \<and> is_uint64 (xs ! h)"
    unfolding homogeneous_def using assms(2) pv by blast
  then show ?thesis
  proof cases
    case 1
    then obtain s t where "item = Attr_String s" "xs ! h = Attr_String t"
      by (cases item; cases "xs ! h") auto
    then show ?thesis using assms(3) by (simp add: do_swap_of_def string_le_def)
  next
    case 2
    then obtain s t where "item = Attr_Integer s" "xs ! h = Attr_Integer t"
      by (cases item; cases "xs ! h") auto
    then show ?thesis using assms(3) by (simp add: do_swap_of_def int64_le_def)
  next
    case 3
    then obtain s t where "item = Attr_UInteger s" "xs ! h = Attr_UInteger t"
      by (cases item; cases "xs ! h") auto
    then show ?thesis using assms(3) by (simp add: do_swap_of_def uint64_le_def)
  qed
qed

lemma partition_loop_List:
  assumes hom: "homogeneous (set xs)"
    and b: "lo \<le> s" "s \<le> j" "j \<le> h" "h < length xs"
    and le: "\<forall>k. lo \<le> k \<and> k < s \<longrightarrow> attr_le (xs ! k) (xs ! h)"
    and gt: "\<forall>k. s \<le> k \<and> k < j \<longrightarrow> \<not> attr_le (xs ! k) (xs ! h)"
  shows "\<exists>ys p. partition_loop (Attr_List xs) (Ref_list h) (int h) lst_idx (int s - 1) (int j) log
            = Inr (Attr_List ys, int p, log)
      \<and> mset ys = mset xs \<and> lo \<le> p \<and> p \<le> h
      \<and> (\<forall>k. lo \<le> k \<and> k < p \<longrightarrow> attr_le (ys ! k) (ys ! p))
      \<and> (\<forall>k. p < k \<and> k \<le> h \<longrightarrow> \<not> attr_le (ys ! k) (ys ! p))
      \<and> (\<forall>k. k < length xs \<and> (k < lo \<or> h < k) \<longrightarrow> ys ! k = xs ! k)
      \<and> (\<forall>k. lo \<le> k \<and> k \<le> h \<longrightarrow> (\<exists>k'. lo \<le> k' \<and> k' \<le> h \<and> ys ! k = xs ! k'))"
  using assms
proof (induction "h - j" arbitrary: xs s j)
  case 0
  then have jh: "j = h" by simp
  have nj: "\<not> int j < int h" using jh by simp
  let ?ys = "xs[s := xs ! h, h := xs ! s]"
  have sl: "s < length xs" using "0.prems" by simp
  have run: "partition_loop (Attr_List xs) (Ref_list h) (int h) lst_idx (int s - 1) (int j) log
      = Inr (Attr_List ?ys, int s, log)"
    unfolding partition_loop_done [OF nj]
    using swap_list_item_List [OF sl "0.prems"(5)] by (simp add: to_unsigned_def)
  have m: "mset ?ys = mset xs" using sl "0.prems"(5) by (simp add: mset_swap)
  have p1: "\<forall>k. lo \<le> k \<and> k < s \<longrightarrow> attr_le (?ys ! k) (?ys ! s)"
    using "0.prems" sl jh by (auto simp: nth_list_update)
  have p2: "\<forall>k. s < k \<and> k \<le> h \<longrightarrow> \<not> attr_le (?ys ! k) (?ys ! s)"
    using "0.prems" sl jh by (auto simp: nth_list_update)
  have p3: "\<forall>k. k < length xs \<and> (k < lo \<or> h < k) \<longrightarrow> ?ys ! k = xs ! k"
    using "0.prems" by (auto simp: nth_list_update)
  have p4: "\<forall>k. lo \<le> k \<and> k \<le> h \<longrightarrow> (\<exists>k'. lo \<le> k' \<and> k' \<le> h \<and> ?ys ! k = xs ! k')"
  proof (intro allI impI)
    fix k assume k: "lo \<le> k \<and> k \<le> h"
    have "?ys ! k = (if k = h then xs ! s else if k = s then xs ! h else xs ! k)"
      using k sl "0.prems"(5) by (simp add: nth_list_update)
    then show "\<exists>k'. lo \<le> k' \<and> k' \<le> h \<and> ?ys ! k = xs ! k'"
      using k "0.prems"(2,3,4) jh by (metis order_refl le_trans)
  qed
  from run m p1 p2 p3 p4 "0.prems"(2,3,4) jh show ?case by blast
next
  case (Suc n)
  then have jh: "j < h" by simp
  have ij: "int j < int h" using jh by simp
  have jl: "j < length xs" using jh Suc.prems by simp
  have sl: "s < length xs" using jh Suc.prems by simp
  have it: "load (Attr_List xs) (fst (op_index (Attr_List xs) (to_unsigned (int j)))) = Inr (xs ! j)"
    using jl by (simp add: op_index_def to_unsigned_def)
  have d: "do_swap_of (Attr_List xs) (xs ! j) (Ref_list h) lst_idx = Inr (Some (attr_le (xs ! j) (xs ! h)))"
    using do_swap_of_homogeneous [OF Suc.prems(1) _ Suc.prems(5)] jl by simp
  note st = partition_loop_step [OF ij it d, of "int s - 1" log]
  have lg: "log @ snd (op_index (Attr_List xs) (to_unsigned (int j))) = log"
    by (simp add: op_index_def)
  have n: "n = h - Suc j" using Suc.hyps(2) by simp
  show ?case
  proof (cases "attr_le (xs ! j) (xs ! h)")
    case False
    have run: "partition_loop (Attr_List xs) (Ref_list h) (int h) lst_idx (int s - 1) (int j) log
      = partition_loop (Attr_List xs) (Ref_list h) (int h) lst_idx (int s - 1) (int (Suc j)) log"
      using st False lg by (simp add: add.commute)
    have gt': "\<forall>k. s \<le> k \<and> k < Suc j \<longrightarrow> \<not> attr_le (xs ! k) (xs ! h)"
      using Suc.prems(7) False by (auto simp: less_Suc_eq)
    have b': "s \<le> Suc j" "Suc j \<le> h" using Suc.prems jh by simp_all
    from Suc.hyps(1) [OF n Suc.prems(1) Suc.prems(2) b' Suc.prems(5) Suc.prems(6) gt']
    show ?thesis unfolding run .
  next
    case True
    let ?xs = "xs[s := xs ! j, j := xs ! s]"
    have sw: "swap_list_item (Attr_List xs) (to_unsigned (int s - 1 + 1)) (to_unsigned (int j))
        = Inr (Attr_List ?xs)"
      using swap_list_item_List [OF sl jl] by (simp add: to_unsigned_def)
    have run: "partition_loop (Attr_List xs) (Ref_list h) (int h) lst_idx (int s - 1) (int j) log
      = partition_loop (Attr_List ?xs) (Ref_list h) (int h) lst_idx (int (Suc s) - 1) (int (Suc j)) log"
      using st True lg sw by (simp add: add.commute)
    have m: "mset ?xs = mset xs" using sl jl by (simp add: mset_swap)
    have hom': "homogeneous (set ?xs)" using Suc.prems(1) m by (metis set_mset_mset)
    have len: "length ?xs = length xs" by simp
    have nth: "\<And>k. k < length xs \<Longrightarrow>
        ?xs ! k = (if k = j then xs ! s else if k = s then xs ! j else xs ! k)"
      using sl jl by (simp add: nth_list_update)
    have hh: "?xs ! h = xs ! h" using nth [OF Suc.prems(5)] jh Suc.prems(3) by simp
    have b': "lo \<le> Suc s" "Suc s \<le> Suc j" "Suc j \<le> h" "h < length ?xs"
      using Suc.prems jh by simp_all
    have le': "\<forall>k. lo \<le> k \<and> k < Suc s \<longrightarrow> attr_le (?xs ! k) (?xs ! h)"
    proof (intro allI impI)
      fix k assume k: "lo \<le> k \<and> k < Suc s"
      then have kl: "k < length xs" using sl by simp
      show "attr_le (?xs ! k) (?xs ! h)"
        using k nth [OF kl] hh True Suc.prems(6) Suc.prems(3) by (cases "k = s") auto
    qed
    have gt': "\<forall>k. Suc s \<le> k \<and> k < Suc j \<longrightarrow> \<not> attr_le (?xs ! k) (?xs ! h)"
    proof (intro allI impI)
      fix k assume k: "Suc s \<le> k \<and> k < Suc j"
      then have kl: "k < length xs" using jl by simp
      show "\<not> attr_le (?xs ! k) (?xs ! h)"
        using k nth [OF kl] hh Suc.prems(7) by (cases "k = j") auto
    qed
    from Suc.hyps(1) [OF n hom' b' le' gt']
    obtain ys p where
      r: "partition_loop (Attr_List ?xs) (Ref_list h) (int h) lst_idx (int (Suc s) - 1) (int (Suc j)) log
            = Inr (Attr_List ys, int p, log)"
      and q: "mset ys = mset ?xs" "lo \<le> p" "p \<le> h"
        "\<forall>k. lo \<le> k \<and> k < p \<longrightarrow> attr_le (ys ! k) (ys ! p)"
        "\<forall>k. p < k \<and> k \<le> h \<longrightarrow> \<not> attr_le (ys ! k) (ys ! p)"
      and o: "\<forall>k. k < length ?xs \<and> (k < lo \<or> h < k) \<longrightarrow> ys ! k = ?xs ! k"
      and i: "\<forall>k. lo \<le> k \<and> k \<le> h \<longrightarrow> (\<exists>k'. lo \<le> k' \<and> k' \<le> h \<and> ys ! k = ?xs ! k')"
      by blast
    have o': "\<forall>k. k < length xs \<and> (k < lo \<or> h < k) \<longrightarrow> ys ! k = xs ! k"
    proof (intro allI impI)
      fix k assume k: "k < length xs \<and> (k < lo \<or> h < k)"
      then have "ys ! k = ?xs ! k" using o by simp
      also have "\<dots> = xs ! k" using k nth [of k] Suc.prems(2,3) jh by auto
      finally show "ys ! k = xs ! k" .
    qed
    have i': "\<forall>k. lo \<le> k \<and> k \<le> h \<longrightarrow> (\<exists>k'. lo \<le> k' \<and> k' \<le> h \<and> ys ! k = xs ! k')"
    proof (intro allI impI)
      fix k assume k: "lo \<le> k \<and> k \<le> h"
      with i obtain k' where k': "lo \<le> k'" "k' \<le> h" "ys ! k = ?xs ! k'" by blast
      have kl: "k' < length xs" using k' Suc.prems(5) by simp
      have sj: "lo \<le> s" "s \<le> h" "lo \<le> j" "j \<le> h" using Suc.prems jh by simp_all
      show "\<exists>k'. lo \<le> k' \<and> k' \<le> h \<and> ys ! k = xs ! k'"
      proof (cases "k' = j")
        case True
        then have "ys ! k = xs ! s" using k' nth [OF kl] by simp
        then show ?thesis using sj by blast
      next
        case False
        show ?thesis
        proof (cases "k' = s")
          case True
          then have "ys ! k = xs ! j" using k' nth [OF kl] False by simp
          then show ?thesis using sj by blast
        next
          case f2: False
          then have "ys ! k = xs ! k'" using k' nth [OF kl] False by simp
          then show ?thesis using k' by blast
        qed
      qed
    qed
    from r q m o' i' show ?thesis unfolding run by auto
  qed
qed

lemma quicksort_done:
  "lo \<ge> hi \<Longrightarrow> quicksort A lo hi lst_idx log = Inr (A, log)"
  by (subst quicksort.simps) simp

lemma quicksort_step:
  "\<not> lo \<ge> hi \<Longrightarrow> partition_attr A lo hi lst_idx log = Inr (A1, p, log1) \<Longrightarrow>
   quicksort A1 lo (p - 1) lst_idx log1 = Inr (A2, log2) \<Longrightarrow>
   quicksort A lo hi lst_idx log = quicksort A2 (p + 1) hi lst_idx log2"
  by (subst quicksort.simps) simp

lemma partition_attr_List:
  assumes hom: "homogeneous (set xs)" and b: "lo \<le> h" "h < length xs"
  shows "\<exists>ys p. partition_attr (Attr_List xs) (int lo) (int h) lst_idx log
            = Inr (Attr_List ys, int p, log)
      \<and> mset ys = mset xs \<and> lo \<le> p \<and> p \<le> h
      \<and> (\<forall>k. lo \<le> k \<and> k < p \<longrightarrow> attr_le (ys ! k) (ys ! p))
      \<and> (\<forall>k. p < k \<and> k \<le> h \<longrightarrow> \<not> attr_le (ys ! k) (ys ! p))
      \<and> (\<forall>k. k < length xs \<and> (k < lo \<or> h < k) \<longrightarrow> ys ! k = xs ! k)
      \<and> (\<forall>k. lo \<le> k \<and> k \<le> h \<longrightarrow> (\<exists>k'. lo \<le> k' \<and> k' \<le> h \<and> ys ! k = xs ! k'))"
proof -
  have e: "partition_attr (Attr_List xs) (int lo) (int h) lst_idx log
     = partition_loop (Attr_List xs) (Ref_list h) (int h) lst_idx (int lo - 1) (int lo) log"
    by (simp add: partition_attr_def op_index_def to_unsigned_def)
  show ?thesis
    unfolding e
    by (rule partition_loop_List [OF hom order_refl order_refl b]) auto
qed

lemma attr_le_refl: "homogeneous S \<Longrightarrow> a \<in> S \<Longrightarrow> attr_le a a"
  using attr_le_total [of S a a] by blast

lemma quicksort_List:
  assumes "homogeneous (set xs)" "n \<le> length xs"
  shows "\<exists>ys. quicksort (Attr_List xs) (int lo) (int n - 1) lst_idx log = Inr (Attr_List ys, log)
      \<and> mset ys = mset xs
      \<and> (\<forall>k. k < length xs \<and> (k < lo \<or> n \<le> k) \<longrightarrow> ys ! k = xs ! k)
      \<and> (\<forall>k. lo \<le> k \<and> k < n \<longrightarrow> (\<exists>k'. lo \<le> k' \<and> k' < n \<and> ys ! k = xs ! k'))
      \<and> (\<forall>k l. lo \<le> k \<and> k \<le> l \<and> l < n \<longrightarrow> attr_le (ys ! k) (ys ! l))"
  using assms
proof (induction "n - lo" arbitrary: xs lo n rule: less_induct)
  case less
  show ?case
  proof (cases "int lo \<ge> int n - 1")
    case True
    then have small: "n \<le> Suc lo" by simp
    have "\<forall>k l. lo \<le> k \<and> k \<le> l \<and> l < n \<longrightarrow> attr_le (xs ! k) (xs ! l)"
    proof (intro allI impI)
      fix k l assume kl: "lo \<le> k \<and> k \<le> l \<and> l < n"
      then have "k = l" "k < length xs" using small less.prems(2) by simp_all
      then show "attr_le (xs ! k) (xs ! l)"
        using attr_le_refl [OF less.prems(1), of "xs ! k"] by simp
    qed
    then show ?thesis unfolding quicksort_done [OF True] by blast
  next
    case False
    then have big: "Suc lo < n" by simp
    define h where "h = n - 1"
    have hn: "int n - 1 = int h" "Suc h = n" "lo < h" "h < length xs"
      using big less.prems(2) by (simp_all add: h_def)
    have nle: "\<not> int lo \<ge> int h" using hn by simp
    from partition_attr_List [OF less.prems(1) _ hn(4), of lo lst_idx log] hn(3)
    obtain ys1 p where
      pa: "partition_attr (Attr_List xs) (int lo) (int h) lst_idx log = Inr (Attr_List ys1, int p, log)"
      and m1: "mset ys1 = mset xs" and pb: "lo \<le> p" "p \<le> h"
      and L1: "\<forall>k. lo \<le> k \<and> k < p \<longrightarrow> attr_le (ys1 ! k) (ys1 ! p)"
      and G1: "\<forall>k. p < k \<and> k \<le> h \<longrightarrow> \<not> attr_le (ys1 ! k) (ys1 ! p)"
      and O1: "\<forall>k. k < length xs \<and> (k < lo \<or> h < k) \<longrightarrow> ys1 ! k = xs ! k"
      and I1: "\<forall>k. lo \<le> k \<and> k \<le> h \<longrightarrow> (\<exists>k'. lo \<le> k' \<and> k' \<le> h \<and> ys1 ! k = xs ! k')"
      by (auto simp: less_imp_le)
    have len1: "length ys1 = length xs" using m1 by (rule mset_eq_length)
    have hom1: "homogeneous (set ys1)" using less.prems(1) m1 by (metis set_mset_mset)
    have pl: "p \<le> length ys1" using pb hn len1 by simp
    have d1: "p - lo < n - lo" using pb hn by simp
    from less.hyps [OF d1 hom1 pl]
    obtain ys2 where
      q2: "quicksort (Attr_List ys1) (int lo) (int p - 1) lst_idx log = Inr (Attr_List ys2, log)"
      and m2: "mset ys2 = mset ys1"
      and O2: "\<forall>k. k < length ys1 \<and> (k < lo \<or> p \<le> k) \<longrightarrow> ys2 ! k = ys1 ! k"
      and I2: "\<forall>k. lo \<le> k \<and> k < p \<longrightarrow> (\<exists>k'. lo \<le> k' \<and> k' < p \<and> ys2 ! k = ys1 ! k')"
      and S2: "\<forall>k l. lo \<le> k \<and> k \<le> l \<and> l < p \<longrightarrow> attr_le (ys2 ! k) (ys2 ! l)"
      by blast
    have len2: "length ys2 = length xs" using m2 len1 by (metis mset_eq_length)
    have hom2: "homogeneous (set ys2)" using hom1 m2 by (metis set_mset_mset)
    have nl2: "n \<le> length ys2" using less.prems(2) len2 by simp
    have d2: "n - Suc p < n - lo" using pb hn by simp
    from less.hyps [OF d2 hom2 nl2]
    obtain ys3 where
      q3: "quicksort (Attr_List ys2) (int (Suc p)) (int n - 1) lst_idx log = Inr (Attr_List ys3, log)"
      and m3: "mset ys3 = mset ys2"
      and O3: "\<forall>k. k < length ys2 \<and> (k < Suc p \<or> n \<le> k) \<longrightarrow> ys3 ! k = ys2 ! k"
      and I3: "\<forall>k. Suc p \<le> k \<and> k < n \<longrightarrow> (\<exists>k'. Suc p \<le> k' \<and> k' < n \<and> ys3 ! k = ys2 ! k')"
      and S3: "\<forall>k l. Suc p \<le> k \<and> k \<le> l \<and> l < n \<longrightarrow> attr_le (ys3 ! k) (ys3 ! l)"
      by blast
    have len3: "length ys3 = length xs" using m3 len2 by (metis mset_eq_length)
    have hom3: "homogeneous (set ys3)" using hom2 m3 by (metis set_mset_mset)
    have run: "quicksort (Attr_List xs) (int lo) (int n - 1) lst_idx log = Inr (Attr_List ys3, log)"
      unfolding hn(1)
      using quicksort_step [OF nle pa q2] q3 hn(1) by (simp add: add.commute)
    have M: "mset ys3 = mset xs" using m1 m2 m3 by simp
    have O: "\<forall>k. k < length xs \<and> (k < lo \<or> n \<le> k) \<longrightarrow> ys3 ! k = xs ! k"
    proof (intro allI impI)
      fix k assume k: "k < length xs \<and> (k < lo \<or> n \<le> k)"
      have "ys3 ! k = ys2 ! k" using O3 k len2 pb by auto
      also have "\<dots> = ys1 ! k" using O2 k len1 pb hn by auto
      also have "\<dots> = xs ! k" using O1 k hn by auto
      finally show "ys3 ! k = xs ! k" .
    qed
    text \<open>Where each cell of the result comes from, relative to the partitioned list.\<close>
    have left: "\<exists>k'. lo \<le> k' \<and> k' < p \<and> ys3 ! k = ys1 ! k'" if "lo \<le> k" "k < p" for k
    proof -
      have "ys3 ! k = ys2 ! k" using O3 that len2 pb hn by auto
      then show ?thesis using I2 that by auto
    qed
    have mid: "ys3 ! p = ys1 ! p"
    proof -
      have "ys3 ! p = ys2 ! p" using O3 len2 pb hn by auto
      then show ?thesis using O2 len1 pb hn by auto
    qed
    have right: "\<exists>k'. p < k' \<and> k' < n \<and> ys3 ! k = ys1 ! k'" if "p < k" "k < n" for k
    proof -
      have "Suc p \<le> k \<and> k < n" using that by simp
      with I3 obtain k' where k': "Suc p \<le> k'" "k' < n" "ys3 ! k = ys2 ! k'" by blast
      have "ys2 ! k' = ys1 ! k'" using O2 k' len1 less.prems(2) by auto
      with k' have "p < k' \<and> k' < n \<and> ys3 ! k = ys1 ! k'" by simp
      then show ?thesis by blast
    qed
    have I: "\<forall>k. lo \<le> k \<and> k < n \<longrightarrow> (\<exists>k'. lo \<le> k' \<and> k' < n \<and> ys3 ! k = xs ! k')"
    proof (intro allI impI)
      fix k assume k: "lo \<le> k \<and> k < n"
      have "\<exists>k1. lo \<le> k1 \<and> k1 \<le> h \<and> ys3 ! k = ys1 ! k1"
      proof -
        consider "k < p" | "k = p" | "p < k" by linarith
        then show ?thesis
        proof cases
          case 1
          from left [of k] k 1 pb show ?thesis by (meson less_imp_le le_trans)
        next
          case 2
          with mid pb show ?thesis by auto
        next
          case 3
          from right [OF 3] k obtain k' where "p < k'" "k' < n" "ys3 ! k = ys1 ! k'" by auto
          then show ?thesis using pb hn by (intro exI [of _ k']) auto
        qed
      qed
      then obtain k1 where k1: "lo \<le> k1" "k1 \<le> h" "ys3 ! k = ys1 ! k1" by blast
      with I1 obtain k2 where "lo \<le> k2" "k2 \<le> h" "ys1 ! k1 = xs ! k2" by blast
      with k1 hn show "\<exists>k'. lo \<le> k' \<and> k' < n \<and> ys3 ! k = xs ! k'"
        by (intro exI [of _ k2]) auto
    qed
    have below: "attr_le (ys3 ! k) (ys3 ! p)" if "lo \<le> k" "k < p" for k
      using left [OF that] L1 mid by auto
    have above: "attr_le (ys3 ! p) (ys3 ! k)" if "p < k" "k < n" for k
    proof -
      from right [OF that] obtain k' where k': "p < k'" "k' < n" "ys3 ! k = ys1 ! k'" by auto
      then have "\<not> attr_le (ys3 ! k) (ys3 ! p)" using G1 mid hn by auto
      moreover have "ys3 ! k \<in> set ys3" "ys3 ! p \<in> set ys3"
        using that len3 less.prems(2) by auto
      ultimately show ?thesis using attr_le_total [OF hom3] by blast
    qed
    have S: "\<forall>k l. lo \<le> k \<and> k \<le> l \<and> l < n \<longrightarrow> attr_le (ys3 ! k) (ys3 ! l)"
    proof (intro allI impI)
      fix k l assume kl: "lo \<le> k \<and> k \<le> l \<and> l < n"
      have pin: "ys3 ! p \<in> set ys3" using pb hn len3 by auto
      consider "l < p" | "k < p" "l = p" | "k < p" "p < l" | "k = p" "l = p" | "k = p" "p < l" | "p < k"
        using kl by linarith
      then show "attr_le (ys3 ! k) (ys3 ! l)"
      proof cases
        case 1
        have "ys3 ! k = ys2 ! k" "ys3 ! l = ys2 ! l" using O3 1 kl len2 pb hn by auto
        then show ?thesis using S2 1 kl by auto
      next
        case 2
        then show ?thesis using below kl by auto
      next
        case 3
        then show ?thesis using below [of k] above [of l] kl attr_le_trans by blast
      next
        case 4
        then show ?thesis using attr_le_refl [OF hom3 pin] by simp
      next
        case 5
        then show ?thesis using above kl by auto
      next
        case 6
        then show ?thesis using S3 kl by auto
      qed
    qed
    from run M O I S show ?thesis by blast
  qed
qed

section \<open>Textual codec\<close>

subsection \<open>What the codec takes from outside this file\<close>

text \<open>
  The macro \<open>IFACE_SERVICE\<close>, the \<open>"%.4f"\<close> rendering of \<open>RISCV_sprintf\<close> (floating
  point, kept abstract over the 64-bit pattern of the double) and the service registry
  \<open>RISCV_get_service\<close> are parameters of the codec.
\<close>

record codec_env =
  IFACE_SERVICE :: string
  sprintf_4f :: "64 word \<Rightarrow> string"
  RISCV_get_service :: "string \<Rightarrow> IFace"

text \<open>
  The class \<open>AutoBuffer\<close> (\<open>autobuffer.cpp\<close>) is not among the sources.
  Modelled from the spec: section 2 (a growable byte/string accumulator) and section 4.4
  (integers are written as the unsigned decimal digits of the 64-bit pattern, a Data byte
  as two uppercase hexadecimal digits). A buffer is the bytes written so far.
\<close>

type_synonym AutoBuffer = string

definition write_string :: "AutoBuffer \<Rightarrow> string \<Rightarrow> AutoBuffer" where
  "write_string buf s = buf @ c_str s"

definition write_char :: "AutoBuffer \<Rightarrow> char \<Rightarrow> AutoBuffer" where
  "write_char buf c = buf @ [c]"

definition digit_char :: "nat \<Rightarrow> char" where
  "digit_char d = (if d < 10 then char_of (48 + d) else char_of (55 + d))"

function dec_digits :: "nat \<Rightarrow> string" where
  "dec_digits n = (if n < 10 then [digit_char n] else dec_digits (n div 10) @ [digit_char (n mod 10)])"
  by pat_completeness auto
termination
  by (relation "measure id") auto

declare dec_digits.simps [simp del]

definition write_uint64 :: "AutoBuffer \<Rightarrow> 64 word \<Rightarrow> AutoBuffer" where
  "write_uint64 buf v = buf @ dec_digits (unat v)"

definition write_byte :: "AutoBuffer \<Rightarrow> byte \<Rightarrow> AutoBuffer" where
  "write_byte buf b = buf @ [digit_char (unat b div 16), digit_char (unat b mod 16)]"

definition quote :: char where
  "quote = CHR 0x27"

definition dquote :: char where
  "dquote = CHR 0x22"

definition NUL :: char where
  "NUL = CHR 0x00"

subsection \<open>Encoder\<close>

text \<open>
  \<open>attribute_to_string\<close> appends to the file's static \<open>strBuffer\<close>; \<open>to_config\<close> clears it
  first. The loops over the elements of a List and the pairs of a Dict are recursions
  over the cells, and \<open>last\<close> says whether the cell is the last one (\<open>i < list_sz - 1\<close>
  fails). The diagnostic for an interface that is not a service is not recorded: nothing
  is written for it.
\<close>

lemma size_prod_snd: "size_prod (\<lambda>x. 0) f = (\<lambda>p. Suc (f (snd p)))"
  by (auto simp: fun_eq_iff)

lemma size_clone_le: "size (clone v) \<le> size v"
proof (induction v rule: clone.induct)
  case (3 xs)
  have "size_list size (map clone xs) \<le> size_list size xs"
    using 3 by (induction xs) (auto simp: add_mono)
  then show ?case by simp
next
  case (4 ps)
  have "size_list (\<lambda>p. Suc (size (snd p))) (map (\<lambda>(k, v). (c_str k, clone v)) ps)
      \<le> size_list (\<lambda>p. Suc (size (snd p))) ps"
    using 4
  proof (induction ps)
    case Nil
    then show ?case by simp
  next
    case (Cons p ps)
    obtain k v where p: "p = (k, v)" by (cases p)
    have 1: "size (clone v) \<le> size v" using Cons.prems p by auto
    have 2: "size_list (\<lambda>p. Suc (size (snd p))) (map (\<lambda>(k, v). (c_str k, clone v)) ps)
      \<le> size_list (\<lambda>p. Suc (size (snd p))) ps"
    proof (rule Cons.IH)
      fix x :: "string \<times> AttributeType" and xa y
      assume "x \<in> set ps" "(xa, y) = x"
      then show "size (clone y) \<le> size y" using Cons.prems [of x xa y] by simp
    qed
    from 1 2 show ?case by (simp add: p)
  qed
  then show ?case by (simp add: comp_def case_prod_beta size_prod_snd)
qed (simp_all add: make_string_def)

function data_to_string :: "AttributeType \<Rightarrow> nat \<Rightarrow> AutoBuffer \<Rightarrow> error + AutoBuffer" where
  "data_to_string attr n buf =
     (if n < attr_size attr - 1 then
        and_then (load_byte attr (fst (op_call attr n))) (\<lambda>b.
          data_to_string attr (Suc n) (write_char (write_byte buf b) (CHR '','')))
      else Inr buf)"
  by pat_completeness auto
termination
  by (relation "measure (\<lambda>(attr, n, buf). attr_size attr - 1 - n)") auto

declare data_to_string.simps [simp del]

function attribute_to_string :: "codec_env \<Rightarrow> AttributeType \<Rightarrow> AutoBuffer \<Rightarrow> error + AutoBuffer"
  and list_to_string :: "codec_env \<Rightarrow> AttributeType list \<Rightarrow> AutoBuffer \<Rightarrow> error + AutoBuffer"
  and dict_to_string :: "codec_env \<Rightarrow> (string \<times> AttributeType) list \<Rightarrow> AutoBuffer \<Rightarrow> error + AutoBuffer"
where
  "attribute_to_string env Attr_Nil buf = Inr (write_string buf ''None'')"
| "attribute_to_string env (Attr_Integer w) buf = Inr (write_uint64 buf w)"
| "attribute_to_string env (Attr_UInteger w) buf = Inr (write_uint64 buf w)"
| "attribute_to_string env (Attr_String s) buf =
     Inr (write_char (write_string (write_char buf quote) s) quote)"
| "attribute_to_string env (Attr_Bool b) buf =
     Inr (if b then write_string buf ''true'' else write_string buf ''false'')"
| "attribute_to_string env (Attr_List xs) buf =
     and_then (list_to_string env xs (write_char buf (CHR ''[''))) (\<lambda>buf1.
       Inr (write_char buf1 (CHR '']'')))"
| "attribute_to_string env (Attr_Dict ps) buf =
     and_then (dict_to_string env ps (write_char buf (CHR ''{''))) (\<lambda>buf1.
       Inr (write_char buf1 (CHR ''}'')))"
| "attribute_to_string env (Attr_Data bs) buf =
     (if attr_size (Attr_Data bs) > 0 then
        and_then (data_to_string (Attr_Data bs) 0 (write_char buf (CHR ''(''))) (\<lambda>buf1.
        and_then (load_byte (Attr_Data bs)
                    (fst (op_call (Attr_Data bs) (attr_size (Attr_Data bs) - 1)))) (\<lambda>b.
          Inr (write_char (write_byte buf1 b) (CHR '')''))))
      else Inr (write_char (write_char buf (CHR ''('')) (CHR '')'')))"
| "attribute_to_string env (Attr_Interface iface) buf =
     (if strcmp (getFaceName iface) (IFACE_SERVICE env) = 0 then
        Inr (write_string
              (write_string
                (write_string
                  (write_string
                    (write_string (write_char buf (CHR ''{''))
                      ([quote] @ ''Type'' @ [quote, CHR '':'', quote]))
                    (getFaceName iface))
                  ([quote, CHR '','', quote] @ ''ModuleName'' @ [quote, CHR '':'', quote]))
                (getObjName iface))
              [quote, CHR ''}''])
      else Inr buf)"
| "attribute_to_string env (Attr_Floating d) buf = Inr (write_string buf (sprintf_4f env d))"
| "attribute_to_string env Attr_Invalid buf = Inr buf"
| "list_to_string env [] buf = Inr buf"
| "list_to_string env (x # xs) buf =
     and_then (attribute_to_string env (clone x) buf) (\<lambda>buf1.
       list_to_string env xs (if xs \<noteq> [] then write_char buf1 (CHR '','') else buf1))"
| "dict_to_string env [] buf = Inr buf"
| "dict_to_string env (p # ps) buf =
     and_then (attribute_to_string env (snd p)
                 (write_char (write_char (write_string (write_char buf quote) (fst p)) quote)
                    (CHR '':''))) (\<lambda>buf1.
       dict_to_string env ps (if ps \<noteq> [] then write_char buf1 (CHR '','') else buf1))"
  by pat_completeness auto
termination
proof (relation "measure (\<lambda>x. case x of
      Inl (env, v, buf) \<Rightarrow> 2 * size v + 1
    | Inr (Inl (env, xs, buf)) \<Rightarrow> 2 * size_list size xs
    | Inr (Inr (env, ps, buf)) \<Rightarrow> 2 * size_list (size_prod (\<lambda>x. 0) size) ps)")
  fix env x xs buf
  show "(Inl (env, clone x, buf), Inr (Inl (env, x # xs, buf))) \<in> measure (\<lambda>x. case x of
      Inl (env, v, buf) \<Rightarrow> 2 * size v + 1
    | Inr (Inl (env, xs, buf)) \<Rightarrow> 2 * size_list size xs
    | Inr (Inr (env, ps, buf)) \<Rightarrow> 2 * size_list (size_prod (\<lambda>x. 0) size) ps)"
    using size_clone_le [of x] by simp
qed auto

definition to_config :: "codec_env \<Rightarrow> AttributeType \<Rightarrow> error + string" where
  "to_config env attr = attribute_to_string env attr []"
subsection \<open>Decoder\<close>

text \<open>
  The decoder walks a NUL-terminated buffer with the pointer \<open>pcur\<close>. \<open>cfg\<close> holds the
  bytes before the terminator and a pointer is an index into it: index \<open>length cfg\<close> is
  the terminator, and a read at any later index is outside the buffer.
\<close>

definition deref :: "string \<Rightarrow> nat \<Rightarrow> error + char" where
  "deref cfg p =
     (if p < length cfg then Inr (cfg ! p)
      else if p = length cfg then Inr NUL
      else Inl (Out_of_bounds p))"

lemma deref_Inr_le: "deref cfg p = Inr c \<Longrightarrow> p \<le> length cfg"
  by (auto simp: deref_def split: if_splits)

lemma deref_not_NUL: "deref cfg p = Inr c \<Longrightarrow> c \<noteq> NUL \<Longrightarrow> p < length cfg"
  by (auto simp: deref_def split: if_splits)

definition is_special :: "char \<Rightarrow> bool" where
  "is_special c = (c = CHR '' '' \<or> c = CHR 0x0D \<or> c = CHR 0x0A \<or> c = CHR 0x09)"

function skip_special_symbols :: "string \<Rightarrow> nat \<Rightarrow> error + nat" where
  "skip_special_symbols cfg pcur =
     and_then (deref cfg pcur) (\<lambda>c.
       if is_special c then skip_special_symbols cfg (Suc pcur) else Inr pcur)"
  by pat_completeness auto
termination
proof (relation "measure (\<lambda>(cfg, pcur). Suc (length cfg) - pcur)")
  show "wf (measure (\<lambda>(cfg, pcur). Suc (length cfg) - pcur))" by simp
next
  fix cfg pcur c
  assume "deref cfg pcur = Inr c" "is_special c"
  then have "pcur < length cfg"
    by (intro deref_not_NUL [of cfg pcur c]) (auto simp: is_special_def NUL_def)
  then show "((cfg, Suc pcur), cfg, pcur) \<in> measure (\<lambda>(cfg, pcur). Suc (length cfg) - pcur)"
    by simp
qed

declare skip_special_symbols.simps [simp del]

lemma skip_special_symbols_range:
  "skip_special_symbols cfg p = Inr q \<Longrightarrow> p \<le> q \<and> q \<le> length cfg"
proof (induction cfg p rule: skip_special_symbols.induct)
  case (1 cfg pcur)
  from "1.prems" obtain c where c: "deref cfg pcur = Inr c"
    by (subst (asm) skip_special_symbols.simps) (cases "deref cfg pcur", auto)
  show ?case
  proof (cases "is_special c")
    case True
    with "1.prems" c have "skip_special_symbols cfg (Suc pcur) = Inr q"
      by (subst (asm) skip_special_symbols.simps) simp
    from "1.IH" [OF c True this] show ?thesis by simp
  next
    case False
    with "1.prems" c have "q = pcur"
      by (subst (asm) skip_special_symbols.simps) simp
    with deref_Inr_le [OF c] show ?thesis by simp
  qed
qed

text \<open>The String token: the scan for the closing quote \<open>t1\<close>, counting \<open>str_sz\<close>.\<close>

function scan_string :: "string \<Rightarrow> char \<Rightarrow> nat \<Rightarrow> nat \<Rightarrow> error + (nat \<times> nat)" where
  "scan_string cfg t1 pcur str_sz =
     and_then (deref cfg pcur) (\<lambda>c.
       if c \<noteq> t1 \<and> c \<noteq> NUL then scan_string cfg t1 (Suc pcur) (Suc str_sz)
       else Inr (pcur, str_sz))"
  by pat_completeness auto
termination
proof (relation "measure (\<lambda>(cfg, t1, pcur, str_sz). Suc (length cfg) - pcur)")
  show "wf (measure (\<lambda>(cfg, t1, pcur, str_sz). Suc (length cfg) - pcur))" by simp
next
  fix cfg t1 pcur str_sz c
  assume "deref cfg pcur = Inr c" "c \<noteq> t1 \<and> c \<noteq> NUL"
  then have "pcur < length cfg" by (intro deref_not_NUL [of cfg pcur c]) auto
  then show "((cfg, t1, Suc pcur, Suc str_sz), cfg, t1, pcur, str_sz)
      \<in> measure (\<lambda>(cfg, t1, pcur, str_sz). Suc (length cfg) - pcur)"
    by simp
qed

declare scan_string.simps [simp del]

text \<open>
  The bytes of the String are taken from \<open>&cfg[1]\<close>, that is from the argument of the
  call (\<open>start\<close>), not from the position after the skipped white space.
\<close>

definition decode_string :: "string \<Rightarrow> nat \<Rightarrow> nat \<Rightarrow> char \<Rightarrow> error + (nat \<times> AttributeType)" where
  "decode_string cfg start pcur t1 =
     and_then (scan_string cfg t1 (Suc pcur) 0) (\<lambda>(p, str_sz).
       Inr (Suc p, make_string (Some (take str_sz (drop (Suc start) cfg)))))"

text \<open>
  The Data token. \<open>hex_digit_step\<close> is one round of the loop \<open>for (int n = 0; n < 2; n++)\<close>
  on the \<open>char byte_value\<close>; the arithmetic is that of the low 8 bits.
\<close>

definition hex_digit_step :: "string \<Rightarrow> byte \<times> nat \<Rightarrow> error + (byte \<times> nat)" where
  "hex_digit_step cfg s =
     and_then (deref cfg (snd s)) (\<lambda>c.
       Inr (if (of_char (CHR ''A'') :: nat) \<le> of_char c \<and> (of_char c :: nat) \<le> of_char (CHR ''F'')
            then push_bit 4 (fst s) OR ((of_char c - of_char (CHR ''A'')) + 10)
            else push_bit 4 (fst s) OR (of_char c - of_char (CHR ''0'')),
            Suc (snd s)))"

definition hex_pair :: "string \<Rightarrow> nat \<Rightarrow> error + (byte \<times> nat)" where
  "hex_pair cfg pcur = and_then (hex_digit_step cfg (0, pcur)) (hex_digit_step cfg)"

lemma hex_pair_advance: "hex_pair cfg p = Inr (b, q) \<Longrightarrow> q = Suc (Suc p)"
  by (auto simp: hex_pair_def hex_digit_step_def and_then_def split: sum.splits)

function data_loop :: "string \<Rightarrow> nat \<Rightarrow> byte list \<Rightarrow> error + (nat \<times> byte list)" where
  "data_loop cfg pcur buf =
     and_then (deref cfg pcur) (\<lambda>c.
       if c \<noteq> CHR '')'' \<and> c \<noteq> NUL then
         and_then (hex_pair cfg pcur) (\<lambda>(byte_value, p2).
         and_then (skip_special_symbols cfg p2) (\<lambda>p3.
         and_then (deref cfg p3) (\<lambda>c3.
           if c3 = CHR '','' then
             and_then (skip_special_symbols cfg (Suc p3)) (\<lambda>p4.
               data_loop cfg p4 (buf @ [byte_value]))
           else data_loop cfg p3 (buf @ [byte_value]))))
       else Inr (pcur, buf))"
  by pat_completeness auto
termination
proof (relation "measure (\<lambda>(cfg, pcur, buf). Suc (length cfg) - pcur)")
  show "wf (measure (\<lambda>(cfg, pcur, buf). Suc (length cfg) - pcur))" by simp
next
  fix cfg pcur buf c x byte_value p2 p3 c3 p4
  assume "deref cfg pcur = Inr c" "hex_pair cfg pcur = Inr x" "(byte_value, p2) = x"
    "skip_special_symbols cfg p2 = Inr p3" "skip_special_symbols cfg (Suc p3) = Inr p4"
  then have "p2 = Suc (Suc pcur)" "p2 \<le> p3" "Suc p3 \<le> p4" "p4 \<le> length cfg"
    using hex_pair_advance [of cfg pcur byte_value p2]
      skip_special_symbols_range [of cfg p2 p3] skip_special_symbols_range [of cfg "Suc p3" p4]
    by auto
  then show "((cfg, p4, buf @ [byte_value]), cfg, pcur, buf)
      \<in> measure (\<lambda>(cfg, pcur, buf). Suc (length cfg) - pcur)"
    by simp
next
  fix cfg pcur buf c x byte_value p2 p3 c3
  assume "deref cfg pcur = Inr c" "hex_pair cfg pcur = Inr x" "(byte_value, p2) = x"
    "skip_special_symbols cfg p2 = Inr p3"
  then have "p2 = Suc (Suc pcur)" "p2 \<le> p3" "p3 \<le> length cfg"
    using hex_pair_advance [of cfg pcur byte_value p2] skip_special_symbols_range [of cfg p2 p3]
    by auto
  then show "((cfg, p3, buf @ [byte_value]), cfg, pcur, buf)
      \<in> measure (\<lambda>(cfg, pcur, buf). Suc (length cfg) - pcur)"
    by simp
qed

declare data_loop.simps [simp del]

definition decode_data :: "string \<Rightarrow> nat \<Rightarrow> error + (nat \<times> AttributeType)" where
  "decode_data cfg pcur =
     and_then (skip_special_symbols cfg (Suc pcur)) (\<lambda>p1.
     and_then (data_loop cfg p1 []) (\<lambda>(p2, buf).
     and_then (make_data (length buf) buf) (\<lambda>out.
     and_then (skip_special_symbols cfg (Suc p2)) (\<lambda>p3. Inr (p3, out)))))"

text \<open>
  A bare literal. \<open>pcur[0] == 'N' && pcur[1] == 'o' && ...\<close> reads left to right and
  stops at the first byte that differs.
\<close>

fun starts_with :: "string \<Rightarrow> nat \<Rightarrow> string \<Rightarrow> error + bool" where
  "starts_with cfg pcur [] = Inr True"
| "starts_with cfg pcur (c # cs) =
     and_then (deref cfg pcur) (\<lambda>x.
       if x = c then starts_with cfg (Suc pcur) cs else Inr False)"

definition is_hex_char :: "char \<Rightarrow> bool" where
  "is_hex_char c =
     (((of_char (CHR ''0'') :: nat) \<le> of_char c \<and> (of_char c :: nat) \<le> of_char (CHR ''9''))
      \<or> ((of_char (CHR ''a'') :: nat) \<le> of_char c \<and> (of_char c :: nat) \<le> of_char (CHR ''f''))
      \<or> ((of_char (CHR ''A'') :: nat) \<le> of_char c \<and> (of_char c :: nat) \<le> of_char (CHR ''F'')))"

function scan_digits :: "string \<Rightarrow> nat \<Rightarrow> string \<Rightarrow> error + (nat \<times> string)" where
  "scan_digits cfg pcur digits =
     and_then (deref cfg pcur) (\<lambda>c.
       if is_hex_char c then scan_digits cfg (Suc pcur) (digits @ [c])
       else Inr (pcur, digits))"
  by pat_completeness auto
termination
proof (relation "measure (\<lambda>(cfg, pcur, digits). Suc (length cfg) - pcur)")
  show "wf (measure (\<lambda>(cfg, pcur, digits). Suc (length cfg) - pcur))" by simp
next
  fix cfg pcur digits c
  assume "deref cfg pcur = Inr c" "is_hex_char c"
  then have "pcur < length cfg"
    by (intro deref_not_NUL [of cfg pcur c]) (auto simp: is_hex_char_def NUL_def)
  then show "((cfg, Suc pcur, digits @ [c]), cfg, pcur, digits)
      \<in> measure (\<lambda>(cfg, pcur, digits). Suc (length cfg) - pcur)"
    by simp
qed

declare scan_digits.simps [simp del]

text \<open>
  \<open>strtoull(digits, NULL, 0)\<close> of the C library, on a buffer that holds hexadecimal
  digit characters after an optional \<open>0x\<close>: the base is 16 after \<open>0x\<close> followed by a
  hexadecimal digit, 8 after a leading \<open>0\<close>, 10 otherwise; the longest run of digits of
  that base is converted; a value that does not fit is \<open>ULLONG_MAX\<close>.
\<close>

definition digit_value :: "char \<Rightarrow> nat" where
  "digit_value c =
     (if (of_char (CHR ''0'') :: nat) \<le> of_char c \<and> (of_char c :: nat) \<le> of_char (CHR ''9'')
        then of_char c - of_char (CHR ''0'')
      else if (of_char (CHR ''a'') :: nat) \<le> of_char c \<and> (of_char c :: nat) \<le> of_char (CHR ''f'')
        then of_char c - of_char (CHR ''a'') + 10
      else if (of_char (CHR ''A'') :: nat) \<le> of_char c \<and> (of_char c :: nat) \<le> of_char (CHR ''F'')
        then of_char c - of_char (CHR ''A'') + 10
      else 36)"

fun parse_base :: "nat \<Rightarrow> string \<Rightarrow> nat \<Rightarrow> nat" where
  "parse_base b [] acc = acc"
| "parse_base b (c # cs) acc =
     (if digit_value c < b then parse_base b cs (acc * b + digit_value c) else acc)"

fun strtoull :: "string \<Rightarrow> nat" where
  "strtoull (c0 # c1 # c2 # cs) =
     min (2 ^ 64 - 1)
       (if c0 = CHR ''0'' \<and> (c1 = CHR ''x'' \<or> c1 = CHR ''X'') \<and> digit_value c2 < 16
          then parse_base 16 (c2 # cs) 0
        else if c0 = CHR ''0'' then parse_base 8 (c0 # c1 # c2 # cs) 0
        else parse_base 10 (c0 # c1 # c2 # cs) 0)"
| "strtoull cs =
     min (2 ^ 64 - 1)
       (case cs of
          [] \<Rightarrow> 0
        | c0 # rest \<Rightarrow> if c0 = CHR ''0'' then parse_base 8 cs 0 else parse_base 10 cs 0)"

text \<open>
  The integer literal. \<open>digits\<close> is an array of 32 bytes, zero-filled; a run that leaves
  no room for the terminator is written or read outside it.
\<close>

definition decode_number :: "string \<Rightarrow> nat \<Rightarrow> error + (nat \<times> AttributeType)" where
  "decode_number cfg pcur =
     and_then (starts_with cfg pcur ''0x'') (\<lambda>hex.
     and_then (scan_digits cfg (if hex then pcur + 2 else pcur) (if hex then ''0x'' else [])) (\<lambda>(p, digits).
       if length digits \<ge> 32 then Inl (Out_of_bounds 32)
       else Inr (p, Attr_Integer (word_of_nat (strtoull digits)))))"

text \<open>
  In the \<open>None\<close> branch only \<open>pcur\<close> moves: \<open>out\<close> is not written.
  \<open>make_boolean\<close> and \<open>make_int64\<close> (declared with the class) set the tag and the value.
\<close>

definition decode_bare :: "string \<Rightarrow> nat \<Rightarrow> AttributeType \<Rightarrow> error + (nat \<times> AttributeType)" where
  "decode_bare cfg pcur0 out =
     and_then (skip_special_symbols cfg pcur0) (\<lambda>pcur.
     and_then (starts_with cfg pcur ''None'') (\<lambda>n.
       if n then Inr (pcur + 4, out)
       else and_then (starts_with cfg pcur ''false'') (\<lambda>f.
         if f then Inr (pcur + 5, Attr_Bool False)
         else and_then (starts_with cfg pcur ''true'') (\<lambda>t.
           if t then Inr (pcur + 4, Attr_Bool True)
           else decode_number cfg pcur))))"

text \<open>
  After a Dict: the \<open>Type\<close> check. \<open>AttributeType(iserv)\<close> is the InterfaceRef of the
  object the registry returns. The diagnostic of the other branch is not recorded.
\<close>

definition resolve_type :: "codec_env \<Rightarrow> AttributeType \<Rightarrow> error + AttributeType" where
  "resolve_type env out =
     and_then (has_key out ''Type'') (\<lambda>has.
       if has then
         and_then (op_key out ''Type'') (\<lambda>(out1, r).
         and_then (load out1 r) (\<lambda>ty.
         and_then (to_string ty) (\<lambda>s.
           if strcmp s (IFACE_SERVICE env) = 0 then
             and_then (op_key out1 ''ModuleName'') (\<lambda>(out2, r2).
             and_then (load out2 r2) (\<lambda>m.
             and_then (to_string m) (\<lambda>name.
               Inr (Attr_Interface (RISCV_get_service env name)))))
           else Inr out1)))
       else Inr out)"

text \<open>
  \<open>string_to_attribute\<close> and its two loops that call it. The loops over the elements of
  a List and the pairs of a Dict do not always advance (an element that is no token
  consumes nothing), so the three functions take fuel: one unit per call and per round.
  \<open>new_item\<close>, \<open>new_key\<close> and \<open>new_value\<close> are declared before the loops and keep their
  value from one round to the next.
\<close>

function (sequential) string_to_attribute :: "codec_env \<Rightarrow> nat \<Rightarrow> string \<Rightarrow> nat \<Rightarrow> AttributeType
      \<Rightarrow> error + (nat \<times> AttributeType)"
  and list_loop :: "codec_env \<Rightarrow> nat \<Rightarrow> string \<Rightarrow> nat \<Rightarrow> AttributeType \<Rightarrow> AttributeType
      \<Rightarrow> error + (nat \<times> AttributeType)"
  and dict_loop :: "codec_env \<Rightarrow> nat \<Rightarrow> string \<Rightarrow> nat \<Rightarrow> AttributeType \<Rightarrow> AttributeType
      \<Rightarrow> AttributeType \<Rightarrow> error + (nat \<times> AttributeType)"
where
  "string_to_attribute env 0 cfg start out = Inl Out_of_fuel"
| "string_to_attribute env (Suc fuel) cfg start out =
     and_then (skip_special_symbols cfg start) (\<lambda>pcur.
     and_then (deref cfg pcur) (\<lambda>c.
       if c = quote \<or> c = dquote then decode_string cfg start pcur c
       else if c = CHR ''['' then
         and_then (skip_special_symbols cfg (Suc pcur)) (\<lambda>p1.
         and_then (list_loop env fuel cfg p1 Attr_Nil (make_list 0)) (\<lambda>(p2, out1).
         and_then (skip_special_symbols cfg (Suc p2)) (\<lambda>p3. Inr (p3, out1))))
       else if c = CHR ''{'' then
         and_then (skip_special_symbols cfg (Suc pcur)) (\<lambda>p1.
         and_then (dict_loop env fuel cfg p1 Attr_Nil Attr_Nil make_dict) (\<lambda>(p2, out1).
         and_then (skip_special_symbols cfg (Suc p2)) (\<lambda>p3.
         and_then (resolve_type env out1) (\<lambda>out2. Inr (p3, out2)))))
       else if c = CHR ''('' then decode_data cfg pcur
       else decode_bare cfg pcur out))"
| "list_loop env 0 cfg pcur new_item out = Inl Out_of_fuel"
| "list_loop env (Suc fuel) cfg pcur new_item out =
     and_then (deref cfg pcur) (\<lambda>c.
       if c \<noteq> CHR '']'' \<and> c \<noteq> NUL then
         and_then (string_to_attribute env fuel cfg pcur new_item) (\<lambda>(p1, new_item1).
         and_then (realloc_list out (attr_size out + 1)) (\<lambda>out1.
         and_then (store out1 (fst (op_index out1 (attr_size out1 - 1))) (clone new_item1)) (\<lambda>out2.
         and_then (skip_special_symbols cfg p1) (\<lambda>p2.
         and_then (deref cfg p2) (\<lambda>c2.
           if c2 = CHR '','' then
             and_then (skip_special_symbols cfg (Suc p2)) (\<lambda>p3.
               list_loop env fuel cfg p3 new_item1 out2)
           else list_loop env fuel cfg p2 new_item1 out2)))))
       else Inr (pcur, out))"
| "dict_loop env 0 cfg pcur new_key new_value out = Inl Out_of_fuel"
| "dict_loop env (Suc fuel) cfg pcur new_key new_value out =
     and_then (deref cfg pcur) (\<lambda>c.
       if c \<noteq> CHR ''}'' \<and> c \<noteq> NUL then
         and_then (string_to_attribute env fuel cfg pcur new_key) (\<lambda>(p1, new_key1).
         and_then (skip_special_symbols cfg p1) (\<lambda>p2.
         and_then (deref cfg p2) (\<lambda>c2.
         and_then (skip_special_symbols cfg (if c2 = CHR '':'' then Suc p2 else p2)) (\<lambda>p3.
         and_then (string_to_attribute env fuel cfg p3 new_value) (\<lambda>(p4, new_value1).
         and_then (to_string new_key1) (\<lambda>key.
         and_then (op_key out key) (\<lambda>(out1, r).
         and_then (store out1 r (clone new_value1)) (\<lambda>out2.
         and_then (skip_special_symbols cfg p4) (\<lambda>p5.
         and_then (deref cfg p5) (\<lambda>c5.
           if c5 = CHR '','' then
             and_then (skip_special_symbols cfg (Suc p5)) (\<lambda>p6.
               dict_loop env fuel cfg p6 new_key1 new_value1 out2)
           else dict_loop env fuel cfg p5 new_key1 new_value1 out2))))))))))
       else Inr (pcur, out))"
  by pat_completeness auto
termination
  by (relation "measure (\<lambda>x. case x of
        Inl (env, fuel, cfg, start, out) \<Rightarrow> fuel
      | Inr (Inl (env, fuel, cfg, pcur, new_item, out)) \<Rightarrow> fuel
      | Inr (Inr (env, fuel, cfg, pcur, new_key, new_value, out)) \<Rightarrow> fuel)") auto

definition from_config :: "codec_env \<Rightarrow> nat \<Rightarrow> AttributeType \<Rightarrow> string \<Rightarrow> error + AttributeType" where
  "from_config env fuel this str =
     and_then (string_to_attribute env fuel str 0 this) (\<lambda>(p, out). Inr out)"

text \<open>
  An environment for concrete runs of the codec: the service interface is named
  \<open>IService\<close>, every double prints as \<open>0.0000\<close>, and the registry answers every name.
\<close>

definition example_env :: codec_env where
  "example_env = \<lparr>IFACE_SERVICE = ''IService'', sprintf_4f = (\<lambda>d. ''0.0000''),
     RISCV_get_service = IFace ''IService''\<rparr>"

section \<open>Facts about the codec\<close>

text \<open>
  A bind is evaluated only once its first argument is a value: with this congruence the
  simplifier does not enter the continuation before.
\<close>

lemma and_then_weak_cong: "m = m' \<Longrightarrow> and_then m f = and_then m' f"
  by simp

lemmas decoder_eval =
  deref_def skip_special_symbols.simps scan_string.simps data_loop.simps
  scan_digits.simps decode_string_def decode_data_def decode_bare_def decode_number_def
  hex_pair_def hex_digit_step_def is_special_def is_hex_char_def digit_value_def
  quote_def dquote_def NUL_def make_list_def make_dict_def make_data_def make_string_def
  realloc_list_def op_index_def c_str_def

subsection \<open>Reading a buffer through its suffix\<close>

definition at :: "string \<Rightarrow> nat \<Rightarrow> string \<Rightarrow> bool" where
  "at cfg p s \<longleftrightarrow> p \<le> length cfg \<and> drop p cfg = s"

lemma at_length: "at cfg p s \<Longrightarrow> p + length s = length cfg"
proof -
  assume a: "at cfg p s"
  then have "length s = length cfg - p" unfolding at_def by (metis length_drop)
  with a show ?thesis by (simp add: at_def)
qed

lemma at_Cons_deref: "at cfg p (c # s) \<Longrightarrow> deref cfg p = Inr c"
proof -
  assume a: "at cfg p (c # s)"
  from at_length [OF a] have lt: "p < length cfg" by simp
  have "hd (drop p cfg) = cfg ! p" using lt by (rule hd_drop_conv_nth)
  with a have "cfg ! p = c" by (simp add: at_def)
  with lt show ?thesis by (simp add: deref_def)
qed

lemma at_Cons_next: "at cfg p (c # s) \<Longrightarrow> at cfg (Suc p) s"
proof -
  assume a: "at cfg p (c # s)"
  from at_length [OF a] have lt: "p < length cfg" by simp
  have "drop (Suc p) cfg = tl (drop p cfg)" by (simp add: drop_Suc tl_drop)
  with a lt show ?thesis by (simp add: at_def)
qed

lemma at_Nil_deref: "at cfg p [] \<Longrightarrow> deref cfg p = Inr NUL"
  using at_length [of cfg p "[]"] by (simp add: deref_def)

lemma at_append: "at cfg p (a @ b) \<Longrightarrow> at cfg (p + length a) b"
proof -
  assume a: "at cfg p (a @ b)"
  from at_length [OF a] have le: "p + length a \<le> length cfg" by simp
  have "drop (p + length a) cfg = drop (length a) (drop p cfg)" by (simp add: add.commute)
  with a le show ?thesis by (simp add: at_def)
qed

lemma at_start: "at cfg 0 cfg"
  by (simp add: at_def)

text \<open>
  What may follow the text of a value inside a larger text: nothing, or one of the bytes
  \<open>,\<close> \<open>]\<close> \<open>}\<close>.
\<close>

definition stops :: "string \<Rightarrow> bool" where
  "stops rest = (case rest of [] \<Rightarrow> True | c # cs \<Rightarrow> c = CHR '','' \<or> c = CHR '']'' \<or> c = CHR ''}'')"

lemma skip_at_char:
  "at cfg p (c # s) \<Longrightarrow> \<not> is_special c \<Longrightarrow> skip_special_symbols cfg p = Inr p"
  by (subst skip_special_symbols.simps) (simp add: at_Cons_deref)

lemma skip_at_end:
  "at cfg p [] \<Longrightarrow> skip_special_symbols cfg p = Inr p"
  by (subst skip_special_symbols.simps) (simp add: at_Nil_deref is_special_def NUL_def)

lemma skip_at_stops:
  "at cfg p rest \<Longrightarrow> stops rest \<Longrightarrow> skip_special_symbols cfg p = Inr p"
proof (cases rest)
  case Nil
  then show "at cfg p rest \<Longrightarrow> ?thesis" by (simp add: skip_at_end)
next
  case (Cons c cs)
  assume a: "at cfg p rest" and s: "stops rest"
  from s Cons have "\<not> is_special c" by (auto simp: stops_def is_special_def)
  with a Cons show ?thesis by (simp add: skip_at_char)
qed

subsection \<open>The String token\<close>

lemma c_str_id: "NUL \<notin> set s \<Longrightarrow> c_str s = s"
  by (auto simp: c_str_def NUL_def takeWhile_eq_all_conv)

lemma scan_string_clean:
  "at cfg p (s @ t1 # rest) \<Longrightarrow> t1 \<notin> set s \<Longrightarrow> NUL \<notin> set s \<Longrightarrow>
     scan_string cfg t1 p n = Inr (p + length s, n + length s)"
proof (induction s arbitrary: p n)
  case Nil
  then show ?case by (subst scan_string.simps) (simp add: at_Cons_deref)
next
  case (Cons c s)
  from Cons.prems(1) have d: "deref cfg p = Inr c" by (simp add: at_Cons_deref)
  from Cons.prems(1) have nx: "at cfg (Suc p) (s @ t1 # rest)" using at_Cons_next by simp
  from Cons.prems have c: "c \<noteq> t1 \<and> c \<noteq> NUL" by auto
  have "scan_string cfg t1 p n = scan_string cfg t1 (Suc p) (Suc n)"
    by (subst scan_string.simps) (simp add: d c)
  also have "\<dots> = Inr (Suc p + length s, Suc n + length s)"
    using Cons.IH [OF nx] Cons.prems by simp
  finally show ?case by simp
qed

lemma decode_string_clean:
  assumes "at cfg p (t1 # s @ t1 # rest)" "t1 \<notin> set s" "NUL \<notin> set s"
  shows "decode_string cfg p p t1 = Inr (p + length s + 2, Attr_String s)"
proof -
  have nx: "at cfg (Suc p) (s @ t1 # rest)" using assms(1) by (rule at_Cons_next)
  have t: "take (length s) (drop (Suc p) cfg) = s" using nx by (simp add: at_def)
  show ?thesis
    using scan_string_clean [OF nx assms(2,3), of 0] t assms(3)
    by (simp add: decode_string_def make_string_def c_str_id)
qed

subsection \<open>Literals\<close>

lemma starts_with_prefix:
  "at cfg p (lit @ rest) \<Longrightarrow> starts_with cfg p lit = Inr True"
proof (induction lit arbitrary: p)
  case Nil
  then show ?case by simp
next
  case (Cons c lit)
  from Cons.prems have "deref cfg p = Inr c" "at cfg (Suc p) (lit @ rest)"
    using at_Cons_deref at_Cons_next by simp_all
  with Cons.IH show ?case by simp
qed

lemma starts_with_other:
  "at cfg p (c # s) \<Longrightarrow> c \<noteq> l \<Longrightarrow> starts_with cfg p (l # lit) = Inr False"
  by (simp add: at_Cons_deref)

lemma decode_bare_true:
  assumes "at cfg p (''true'' @ rest)"
  shows "decode_bare cfg p out = Inr (p + 4, Attr_Bool True)"
proof -
  from assms have a: "at cfg p (CHR ''t'' # ''rue'' @ rest)" by simp
  have sk: "skip_special_symbols cfg p = Inr p"
    by (rule skip_at_char [OF a]) (simp add: is_special_def)
  show ?thesis
    using sk starts_with_other [OF a, of "CHR ''N''" "''one''"]
      starts_with_other [OF a, of "CHR ''f''" "''alse''"] starts_with_prefix [OF assms]
    by (simp add: decode_bare_def)
qed

lemma decode_bare_false:
  assumes "at cfg p (''false'' @ rest)"
  shows "decode_bare cfg p out = Inr (p + 5, Attr_Bool False)"
proof -
  from assms have a: "at cfg p (CHR ''f'' # ''alse'' @ rest)" by simp
  have sk: "skip_special_symbols cfg p = Inr p"
    by (rule skip_at_char [OF a]) (simp add: is_special_def)
  show ?thesis
    using sk starts_with_other [OF a, of "CHR ''N''" "''one''"] starts_with_prefix [OF assms]
    by (simp add: decode_bare_def)
qed

subsection \<open>Integer literals\<close>

lemma of_char_digit_char:
  "d < 16 \<Longrightarrow> (of_char (digit_char d) :: nat) = (if d < 10 then 48 + d else 55 + d)"
  by (simp add: digit_char_def)

lemma digit_value_digit_char: "d < 16 \<Longrightarrow> digit_value (digit_char d) = d"
  by (auto simp: digit_value_def of_char_digit_char)

lemma is_hex_char_digit_char: "d < 16 \<Longrightarrow> is_hex_char (digit_char d)"
  by (auto simp: is_hex_char_def of_char_digit_char)

lemma digit_char_eq_0: "d < 10 \<Longrightarrow> digit_char d = CHR ''0'' \<longleftrightarrow> d = 0"
proof
  assume d: "d < 10" and e: "digit_char d = CHR ''0''"
  then have "(of_char (digit_char d) :: nat) = of_char (CHR ''0'')" by simp
  with d show "d = 0" by (simp add: of_char_digit_char)
next
  assume "d = 0"
  have "(of_char (digit_char 0) :: nat) = of_char (CHR ''0'')" by (simp add: of_char_digit_char)
  then have "digit_char 0 = CHR ''0''" by (simp only: of_char_eq_iff)
  with \<open>d = 0\<close> show "digit_char d = CHR ''0''" by simp
qed

lemma dec_digits_chars: "c \<in> set (dec_digits n) \<Longrightarrow> \<exists>d < 10. c = digit_char d"
proof (induction n rule: dec_digits.induct)
  case (1 n)
  show ?case
  proof (cases "n < 10")
    case True
    with "1.prems" show ?thesis by (subst (asm) dec_digits.simps) auto
  next
    case False
    with "1.prems" have "c \<in> set (dec_digits (n div 10)) \<or> c = digit_char (n mod 10)"
      by (subst (asm) dec_digits.simps) auto
    then show ?thesis
    proof
      assume "c \<in> set (dec_digits (n div 10))"
      with "1.IH" [OF False] show ?thesis by simp
    next
      assume "c = digit_char (n mod 10)"
      moreover have "n mod 10 < 10" by simp
      ultimately show ?thesis by blast
    qed
  qed
qed

lemma dec_digits_not_Nil: "dec_digits n \<noteq> []"
  by (subst dec_digits.simps) simp

lemma parse_base_append:
  "\<forall>c \<in> set xs. digit_value c < b \<Longrightarrow>
     parse_base b (xs @ ys) acc = parse_base b ys (parse_base b xs acc)"
  by (induction xs arbitrary: acc) simp_all

lemma parse_base_dec_digits:
  "parse_base 10 (dec_digits n) acc = acc * 10 ^ length (dec_digits n) + n"
proof (induction n arbitrary: acc rule: dec_digits.induct)
  case (1 n)
  show ?case
  proof (cases "n < 10")
    case True
    then have e: "dec_digits n = [digit_char n]" by (subst dec_digits.simps) simp
    from True show ?thesis by (simp add: e digit_value_digit_char)
  next
    case False
    then have e: "dec_digits n = dec_digits (n div 10) @ [digit_char (n mod 10)]"
      by (subst dec_digits.simps) simp
    have v: "\<forall>c \<in> set (dec_digits (n div 10)). digit_value c < 10"
    proof
      fix c assume "c \<in> set (dec_digits (n div 10))"
      then obtain d where "d < 10" "c = digit_char d" using dec_digits_chars by blast
      then show "digit_value c < 10" by (simp add: digit_value_digit_char)
    qed
    have m: "digit_value (digit_char (n mod 10)) = n mod 10"
      by (simp add: digit_value_digit_char)
    have "parse_base 10 (dec_digits n) acc
        = (acc * 10 ^ length (dec_digits (n div 10)) + n div 10) * 10 + n mod 10"
      unfolding e using "1.IH" [OF False] by (simp add: parse_base_append [OF v] m)
    also have "\<dots> = acc * 10 ^ length (dec_digits n) + n"
      unfolding e by (simp add: algebra_simps)
    finally show ?thesis .
  qed
qed

lemma hd_dec_digits: "hd (dec_digits n) = CHR ''0'' \<longleftrightarrow> n = 0"
proof (induction n rule: dec_digits.induct)
  case (1 n)
  show ?case
  proof (cases "n < 10")
    case True
    then have e: "dec_digits n = [digit_char n]" by (subst dec_digits.simps) simp
    from True show ?thesis by (simp add: e digit_char_eq_0)
  next
    case False
    then have e: "dec_digits n = dec_digits (n div 10) @ [digit_char (n mod 10)]"
      by (subst dec_digits.simps) simp
    have "hd (dec_digits n) = hd (dec_digits (n div 10))"
      unfolding e using dec_digits_not_Nil by simp
    with "1.IH" [OF False] False show ?thesis by simp
  qed
qed

lemma length_dec_digits: "0 < k \<Longrightarrow> n < 10 ^ k \<Longrightarrow> length (dec_digits n) \<le> k"
proof (induction n arbitrary: k rule: dec_digits.induct)
  case (1 n)
  show ?case
  proof (cases "n < 10")
    case True
    then have e: "dec_digits n = [digit_char n]" by (subst dec_digits.simps) simp
    from "1.prems" show ?thesis by (simp add: e)
  next
    case False
    then have e: "dec_digits n = dec_digits (n div 10) @ [digit_char (n mod 10)]"
      by (subst dec_digits.simps) simp
    from "1.prems" False obtain k' where k: "k = Suc k'" "0 < k'"
      by (cases k; cases "k - 1") auto
    have "n div 10 < 10 ^ k'" using "1.prems"(2) k by (simp add: less_mult_imp_div_less mult.commute)
    from "1.IH" [OF False k(2) this] show ?thesis by (simp add: e k)
  qed
qed

lemma length_dec_digits_64: "n < 2 ^ 64 \<Longrightarrow> length (dec_digits n) \<le> 20"
  by (rule length_dec_digits) simp_all

lemma strtoull_dec_digits: "n < 2 ^ 64 \<Longrightarrow> strtoull (dec_digits n) = n"
proof -
  assume n: "n < 2 ^ 64"
  have p10: "parse_base 10 (dec_digits n) 0 = n" by (simp add: parse_base_dec_digits)
  have m: "min (2 ^ 64 - 1) n = n" using n by simp
  show ?thesis
  proof (cases "n = 0")
    case True
    have "dec_digits 0 = [digit_char 0]" by (subst dec_digits.simps) simp
    then show ?thesis using True by (simp add: digit_char_def digit_value_def)
  next
    case False
    then have h: "hd (dec_digits n) \<noteq> CHR ''0''" by (simp add: hd_dec_digits)
    obtain c0 ds where e: "dec_digits n = c0 # ds"
      using dec_digits_not_Nil by (cases "dec_digits n") auto
    with h have c0: "c0 \<noteq> CHR ''0''" by simp
    from p10 e have p: "parse_base 10 (c0 # ds) 0 = n" by simp
    show ?thesis
    proof (cases ds)
      case Nil
      with e c0 p m show ?thesis by simp
    next
      case outer: (Cons c1 ds1)
      show ?thesis
      proof (cases ds1)
        case Nil
        with outer e c0 p m show ?thesis by simp
      next
        case (Cons c2 cs)
        with outer e c0 p m show ?thesis by simp
      qed
    qed
  qed
qed

lemma stops_not_hex: "stops (c # cs) \<Longrightarrow> \<not> is_hex_char c"
  by (auto simp: stops_def is_hex_char_def)

lemma scan_digits_run:
  "at cfg p (ds @ rest) \<Longrightarrow> \<forall>c \<in> set ds. is_hex_char c \<Longrightarrow> stops rest \<Longrightarrow>
     scan_digits cfg p acc = Inr (p + length ds, acc @ ds)"
proof (induction ds arbitrary: p acc)
  case Nil
  show ?case
  proof (cases rest)
    case Nil
    with Nil.prems show ?thesis
      by (subst scan_digits.simps) (simp add: at_Nil_deref is_hex_char_def NUL_def)
  next
    case (Cons c cs)
    with Nil.prems have "deref cfg p = Inr c" "\<not> is_hex_char c"
      using at_Cons_deref stops_not_hex by auto
    then show ?thesis by (subst scan_digits.simps) simp
  qed
next
  case (Cons d ds)
  from Cons.prems have d: "deref cfg p = Inr d" "is_hex_char d" "at cfg (Suc p) (ds @ rest)"
    using at_Cons_deref at_Cons_next by auto
  have "scan_digits cfg p acc = scan_digits cfg (Suc p) (acc @ [d])"
    by (subst scan_digits.simps) (simp add: d)
  also have "\<dots> = Inr (Suc p + length ds, (acc @ [d]) @ ds)"
    using Cons.IH [OF d(3)] Cons.prems by simp
  finally show ?case by simp
qed

lemma digit_char_plain:
  assumes "d < 10"
  shows "\<not> is_special (digit_char d)" "digit_char d \<noteq> CHR ''N''" "digit_char d \<noteq> CHR ''f''"
    "digit_char d \<noteq> CHR ''t''" "digit_char d \<noteq> quote" "digit_char d \<noteq> dquote"
    "digit_char d \<noteq> CHR ''[''" "digit_char d \<noteq> CHR ''{''" "digit_char d \<noteq> CHR ''(''"
proof -
  have v: "(of_char (digit_char d) :: nat) = 48 + d" using assms by (simp add: of_char_digit_char)
  have ne: "digit_char d \<noteq> c" if "(of_char c :: nat) < 48 \<or> 57 < (of_char c :: nat)" for c
    using that v assms by auto
  show "\<not> is_special (digit_char d)"
    using ne [of "CHR '' ''"] ne [of "CHR 0x0D"] ne [of "CHR 0x0A"] ne [of "CHR 0x09"]
    by (simp add: is_special_def)
  show "digit_char d \<noteq> CHR ''N''" by (rule ne) simp
  show "digit_char d \<noteq> CHR ''f''" by (rule ne) simp
  show "digit_char d \<noteq> CHR ''t''" by (rule ne) simp
  show "digit_char d \<noteq> quote" unfolding quote_def by (rule ne) simp
  show "digit_char d \<noteq> dquote" unfolding dquote_def by (rule ne) simp
  show "digit_char d \<noteq> CHR ''[''" by (rule ne) simp
  show "digit_char d \<noteq> CHR ''{''" by (rule ne) simp
  show "digit_char d \<noteq> CHR ''(''" by (rule ne) simp
qed

lemma dec_digits_Cons: "\<exists>d ds. d < 10 \<and> dec_digits n = digit_char d # ds"
proof -
  obtain c ds where e: "dec_digits n = c # ds" using dec_digits_not_Nil by (cases "dec_digits n") auto
  then have "c \<in> set (dec_digits n)" by simp
  then obtain d where "d < 10" "c = digit_char d" using dec_digits_chars by blast
  with e show ?thesis by blast
qed

lemma starts_with_0x_dec_digits:
  assumes a: "at cfg p (dec_digits n @ rest)" and s: "stops rest"
  shows "starts_with cfg p ''0x'' = Inr False"
proof -
  obtain d ds where d: "d < 10" "dec_digits n = digit_char d # ds"
    using dec_digits_Cons by blast
  from a d have a': "at cfg p (digit_char d # ds @ rest)" by simp
  show ?thesis
  proof (cases "digit_char d = CHR ''0''")
    case False
    then show ?thesis using starts_with_other [OF a'] by simp
  next
    case True
    then have "hd (dec_digits n) = CHR ''0''" using d by simp
    then have "n = 0" by (simp add: hd_dec_digits)
    moreover have "dec_digits 0 = [digit_char 0]" by (subst dec_digits.simps) simp
    ultimately have "ds = []" using d by simp
    with a' have nx: "at cfg (Suc p) rest" using at_Cons_next by fastforce
    have "starts_with cfg (Suc p) ''x'' = Inr False"
    proof (cases rest)
      case Nil
      with nx show ?thesis by (simp add: at_Nil_deref NUL_def)
    next
      case (Cons c cs)
      with s have "c \<noteq> CHR ''x''" by (auto simp: stops_def)
      with nx Cons show ?thesis by (simp add: at_Cons_deref)
    qed
    with True at_Cons_deref [OF a'] show ?thesis by simp
  qed
qed

lemma decode_bare_number:
  assumes a: "at cfg p (dec_digits (unat w) @ rest)" and s: "stops rest"
  shows "decode_bare cfg p out = Inr (p + length (dec_digits (unat w)), Attr_Integer w)"
proof -
  let ?n = "unat (w :: 64 word)"
  have n: "?n < 2 ^ 64" using unsigned_less [of w, where 'a = nat] by simp
  obtain d ds where d: "d < 10" "dec_digits ?n = digit_char d # ds"
    using dec_digits_Cons by blast
  from a d have a': "at cfg p (digit_char d # ds @ rest)" by simp
  have sk: "skip_special_symbols cfg p = Inr p"
    by (rule skip_at_char [OF a']) (rule digit_char_plain(1) [OF d(1)])
  have no: "starts_with cfg p ''None'' = Inr False" "starts_with cfg p ''false'' = Inr False"
    "starts_with cfg p ''true'' = Inr False"
    using starts_with_other [OF a'] digit_char_plain [OF d(1)] by simp_all
  have hex: "\<forall>c \<in> set (dec_digits ?n). is_hex_char c"
  proof
    fix c assume "c \<in> set (dec_digits ?n)"
    then obtain e where "e < 10" "c = digit_char e" using dec_digits_chars by blast
    then show "is_hex_char c" by (simp add: is_hex_char_digit_char)
  qed
  have sc: "scan_digits cfg p [] = Inr (p + length (dec_digits ?n), dec_digits ?n)"
    using scan_digits_run [OF a hex s, of "[]"] by simp
  have len: "\<not> 32 \<le> length (dec_digits ?n)" using length_dec_digits_64 [OF n] by simp
  have "decode_number cfg p = Inr (p + length (dec_digits ?n), Attr_Integer (word_of_nat ?n))"
    using starts_with_0x_dec_digits [OF a s] sc len
    by (simp add: decode_number_def strtoull_dec_digits [OF n])
  then show ?thesis using sk no by (simp add: decode_bare_def)
qed

subsection \<open>The Data token\<close>

text \<open>The text of a byte and of a comma-separated sequence, as the encoder writes them.\<close>

definition hex2 :: "byte \<Rightarrow> string" where
  "hex2 b = [digit_char (unat b div 16), digit_char (unat b mod 16)]"

fun commas :: "string list \<Rightarrow> string" where
  "commas [] = []"
| "commas [x] = x"
| "commas (x # y # ys) = x @ CHR '','' # commas (y # ys)"

lemma nibbles: "push_bit 4 (word_of_nat (unat b div 16) :: 8 word) OR word_of_nat (unat b mod 16) = b"
proof -
  have d: "unat b div 16 = drop_bit 4 (unat b)" by (simp add: drop_bit_eq_div)
  have m: "unat b mod 16 = take_bit 4 (unat b)" by (simp add: take_bit_eq_mod)
  show ?thesis
    unfolding d m
    by (rule bit_word_eqI) (auto simp: bit_simps)
qed

lemma hex_char_plain:
  assumes "h < 16"
  shows "\<not> is_special (digit_char h)" "digit_char h \<noteq> CHR '')''" "digit_char h \<noteq> NUL"
    "digit_char h \<noteq> CHR '',''"
proof -
  have v: "(of_char (digit_char h) :: nat) = (if h < 10 then 48 + h else 55 + h)"
    using assms by (simp add: of_char_digit_char)
  have ne: "digit_char h \<noteq> c" if "(of_char c :: nat) < 48" for c
    using that v by (auto split: if_splits)
  show "\<not> is_special (digit_char h)"
    using ne [of "CHR '' ''"] ne [of "CHR 0x0D"] ne [of "CHR 0x0A"] ne [of "CHR 0x09"]
    by (simp add: is_special_def)
  show "digit_char h \<noteq> CHR '')''" by (rule ne) simp
  show "digit_char h \<noteq> NUL" unfolding NUL_def by (rule ne) simp
  show "digit_char h \<noteq> CHR '',''" by (rule ne) simp
qed

lemma hex_digit_step_digit_char:
  assumes h: "h < 16" and a: "at cfg p (digit_char h # r)"
  shows "hex_digit_step cfg (acc, p) = Inr (push_bit 4 acc OR word_of_nat h, Suc p)"
proof -
  have d: "deref cfg p = Inr (digit_char h)" using a by (rule at_Cons_deref)
  have v: "(of_char (digit_char h) :: nat) = (if h < 10 then 48 + h else 55 + h)"
    using h by (simp add: of_char_digit_char)
  have w: "(of_char (digit_char h) :: byte) = of_nat (if h < 10 then 48 + h else 55 + h)"
    using v by (metis of_nat_of_char)
  show ?thesis
  proof (cases "h < 10")
    case True
    then show ?thesis using d v w by (simp add: hex_digit_step_def)
  next
    case False
    then show ?thesis using d v w h by (simp add: hex_digit_step_def)
  qed
qed

lemma hex_pair_hex2:
  assumes "at cfg p (hex2 b @ r)"
  shows "hex_pair cfg p = Inr (b, p + 2)"
proof -
  have h: "unat b div 16 < 16" "unat b mod 16 < 16"
    using unsigned_less [of b, where 'a = nat] by (simp_all add: less_mult_imp_div_less)
  from assms have a1: "at cfg p (digit_char (unat b div 16) # digit_char (unat b mod 16) # r)"
    by (simp add: hex2_def)
  then have a2: "at cfg (Suc p) (digit_char (unat b mod 16) # r)" by (rule at_Cons_next)
  show ?thesis
    using hex_digit_step_digit_char [OF h(1) a1, of 0] hex_digit_step_digit_char [OF h(2) a2]
    by (simp add: hex_pair_def nibbles)
qed

lemma hex2_Cons: "\<exists>h l. h < 16 \<and> l < 16 \<and> hex2 b = [digit_char h, digit_char l]"
proof -
  have "unat b div 16 < 16" "unat b mod 16 < 16"
    using unsigned_less [of b, where 'a = nat] by (simp_all add: less_mult_imp_div_less)
  then show ?thesis unfolding hex2_def by blast
qed

lemma data_loop_text:
  "at cfg p (commas (map hex2 bs) @ CHR '')'' # rest) \<Longrightarrow>
     data_loop cfg p acc = Inr (p + length (commas (map hex2 bs)), acc @ bs)"
proof (induction bs arbitrary: p acc rule: induct_list012)
  case 1
  then have "deref cfg p = Inr (CHR '')'')" by (simp add: at_Cons_deref)
  then show ?case by (subst data_loop.simps) simp
next
  case (2 b)
  obtain h l where hl: "h < 16" "l < 16" "hex2 b = [digit_char h, digit_char l]"
    using hex2_Cons by blast
  from "2.prems" have a: "at cfg p (hex2 b @ CHR '')'' # rest)" by simp
  then have d: "deref cfg p = Inr (digit_char h)" using hl by (simp add: at_Cons_deref)
  from at_append [OF a] hl have nx: "at cfg (Suc (Suc p)) (CHR '')'' # rest)" by simp
  have sk: "skip_special_symbols cfg (Suc (Suc p)) = Inr (Suc (Suc p))"
    by (rule skip_at_char [OF nx]) (simp add: is_special_def)
  have d2: "deref cfg (Suc (Suc p)) = Inr (CHR '')'')" using nx by (rule at_Cons_deref)
  have "data_loop cfg p acc = data_loop cfg (Suc (Suc p)) (acc @ [b])"
    by (subst data_loop.simps) (simp add: d hex_char_plain [OF hl(1)] hex_pair_hex2 [OF a] sk d2)
  also have "\<dots> = Inr (Suc (Suc p), acc @ [b])"
    by (subst data_loop.simps) (simp add: d2)
  finally show ?case using hl by simp
next
  case (3 b b' bs)
  obtain h l where hl: "h < 16" "l < 16" "hex2 b = [digit_char h, digit_char l]"
    using hex2_Cons by blast
  obtain h' l' where hl': "h' < 16" "l' < 16" "hex2 b' = [digit_char h', digit_char l']"
    using hex2_Cons by blast
  let ?t = "commas (map hex2 (b' # bs)) @ CHR '')'' # rest"
  from "3.prems" have a: "at cfg p (hex2 b @ CHR '','' # ?t)" by simp
  then have d: "deref cfg p = Inr (digit_char h)" using hl by (simp add: at_Cons_deref)
  from at_append [OF a] hl have nx: "at cfg (Suc (Suc p)) (CHR '','' # ?t)" by simp
  have sk: "skip_special_symbols cfg (Suc (Suc p)) = Inr (Suc (Suc p))"
    by (rule skip_at_char [OF nx]) (simp add: is_special_def)
  have d2: "deref cfg (Suc (Suc p)) = Inr (CHR '','')" using nx by (rule at_Cons_deref)
  have nx3: "at cfg (Suc (Suc (Suc p))) ?t" using nx by (rule at_Cons_next)
  have "\<exists>r. ?t = digit_char h' # r" using hl' by (cases bs) auto
  then obtain r where r: "?t = digit_char h' # r" by blast
  have sk3: "skip_special_symbols cfg (Suc (Suc (Suc p))) = Inr (Suc (Suc (Suc p)))"
    using skip_at_char [of cfg "Suc (Suc (Suc p))" "digit_char h'" r] nx3 r hex_char_plain(1) [OF hl'(1)]
    by simp
  have "data_loop cfg p acc = data_loop cfg (Suc (Suc (Suc p))) (acc @ [b])"
    by (subst data_loop.simps)
      (simp add: d hex_char_plain [OF hl(1)] hex_pair_hex2 [OF a] sk d2 sk3)
  also have "\<dots> = Inr (Suc (Suc (Suc p)) + length (commas (map hex2 (b' # bs))), (acc @ [b]) @ b' # bs)"
    by (rule "3.IH"(2) [OF nx3])
  finally show ?case using hl by simp
qed

lemma decode_data_text:
  assumes a: "at cfg p (CHR ''('' # commas (map hex2 bs) @ CHR '')'' # rest)" and s: "stops rest"
  shows "decode_data cfg p = Inr (p + length (commas (map hex2 bs)) + 2, Attr_Data bs)"
proof -
  let ?t = "commas (map hex2 bs) @ CHR '')'' # rest"
  have nx: "at cfg (Suc p) ?t" using a by (rule at_Cons_next)
  have "\<exists>c r. ?t = c # r \<and> \<not> is_special c"
  proof (cases bs)
    case Nil
    then show ?thesis by (simp add: is_special_def)
  next
    case (Cons b bs')
    obtain h l where hl: "h < 16" "l < 16" "hex2 b = [digit_char h, digit_char l]"
      using hex2_Cons by blast
    then have "\<exists>r. ?t = digit_char h # r" using Cons by (cases bs') auto
    with hex_char_plain(1) [OF hl(1)] show ?thesis by blast
  qed
  then obtain c r where cr: "?t = c # r" "\<not> is_special c" by blast
  have sk: "skip_special_symbols cfg (Suc p) = Inr (Suc p)"
    using skip_at_char [of cfg "Suc p" c r] nx cr by simp
  have dl: "data_loop cfg (Suc p) [] = Inr (Suc p + length (commas (map hex2 bs)), bs)"
    using data_loop_text [OF nx, of "[]"] by simp
  have e: "at cfg (Suc p + length (commas (map hex2 bs))) (CHR '')'' # rest)"
    using at_append [OF nx] by simp
  have sk2: "skip_special_symbols cfg (Suc (Suc p + length (commas (map hex2 bs))))
      = Inr (Suc (Suc p + length (commas (map hex2 bs))))"
    by (rule skip_at_stops [OF at_Cons_next [OF e] s])
  show ?thesis
    using sk dl sk2 by (simp add: decode_data_def make_data_def)
qed

subsection \<open>Values whose text decodes to themselves\<close>

text \<open>
  \<open>text_of\<close> is the text section 4.4 of the spec gives for a value built from signed
  integers, Booleans, Strings, Data, Lists and Dicts. \<open>text_safe\<close> holds of such a value
  when no String or key contains a single quote or a NUL, the keys of each Dict are
  pairwise distinct, and the value of a key \<open>Type\<close> is a String other than
  \<open>IFACE_SERVICE\<close>.
\<close>

fun text_of :: "AttributeType \<Rightarrow> string" where
  "text_of (Attr_Integer w) = dec_digits (unat w)"
| "text_of (Attr_Bool b) = (if b then ''true'' else ''false'')"
| "text_of (Attr_String s) = quote # s @ [quote]"
| "text_of (Attr_Data bs) = CHR ''('' # commas (map hex2 bs) @ '')''"
| "text_of (Attr_List xs) = CHR ''['' # commas (map text_of xs) @ '']''"
| "text_of (Attr_Dict ps) =
     CHR ''{'' # commas (map (\<lambda>p. quote # fst p @ [quote, CHR '':''] @ text_of (snd p)) ps) @ ''}''"
| "text_of v = []"

text \<open>
  After a Dict is read, a pair with the key \<open>Type\<close> is looked at through \<open>to_string()\<close>
  and compared with \<open>IFACE_SERVICE\<close>; the Dict stays as read when that value is a String
  other than \<open>IFACE_SERVICE\<close>. \<open>svc\<close> is \<open>IFACE_SERVICE\<close>.
\<close>

fun type_ok :: "string \<Rightarrow> AttributeType \<Rightarrow> bool" where
  "type_ok svc (Attr_String s) = (strcmp s svc \<noteq> 0)"
| "type_ok svc v = False"

fun text_safe :: "string \<Rightarrow> AttributeType \<Rightarrow> bool" where
  "text_safe svc (Attr_Integer w) = True"
| "text_safe svc (Attr_Bool b) = True"
| "text_safe svc (Attr_String s) = (quote \<notin> set s \<and> NUL \<notin> set s)"
| "text_safe svc (Attr_Data bs) = True"
| "text_safe svc (Attr_List xs) = list_all (text_safe svc) xs"
| "text_safe svc (Attr_Dict ps) =
     (distinct (map fst ps)
      \<and> list_all (\<lambda>p. quote \<notin> set (fst p) \<and> NUL \<notin> set (fst p)
                        \<and> (fst p = ''Type'' \<longrightarrow> type_ok svc (snd p))
                        \<and> text_safe svc (snd p)) ps)"
| "text_safe svc v = False"

definition token_start :: "char \<Rightarrow> bool" where
  "token_start c \<longleftrightarrow> \<not> is_special c \<and> c \<noteq> NUL \<and> c \<noteq> CHR '']'' \<and> c \<noteq> CHR ''}''
     \<and> c \<noteq> CHR '','' \<and> c \<noteq> CHR '':''"

lemma text_of_start: "text_safe svc v \<Longrightarrow> \<exists>c r. text_of v = c # r \<and> token_start c"
proof (cases v)
  case (Attr_Integer w)
  obtain d ds where d: "d < 10" "dec_digits (unat w) = digit_char d # ds"
    using dec_digits_Cons by blast
  have v: "(of_char (digit_char d) :: nat) = 48 + d" using d by (simp add: of_char_digit_char)
  have ne: "digit_char d \<noteq> c" if "(of_char c :: nat) < 48 \<or> 57 < (of_char c :: nat)" for c
    using that v d by auto
  have "token_start (digit_char d)"
    unfolding token_start_def NUL_def
    using digit_char_plain(1) [OF d(1)] ne [of "CHR 0x00"] ne [of "CHR '']''"] ne [of "CHR ''}''"]
      ne [of "CHR '',''"] ne [of "CHR '':''"]
    by simp
  with Attr_Integer d show ?thesis by simp
qed (auto simp: token_start_def is_special_def quote_def NUL_def)

lemma clone_safe: "text_safe svc v \<Longrightarrow> clone v = v"
proof (induction v)
  case (Attr_String s)
  then show ?case by (simp add: make_string_def c_str_id)
next
  case (Attr_List xs)
  then have "map clone xs = xs" by (intro map_idI) (simp add: list_all_iff)
  then show ?case by simp
next
  case (Attr_Dict ps)
  have "map (\<lambda>(k, v). (c_str k, clone v)) ps = ps"
  proof (intro map_idI)
    fix p assume p: "p \<in> set ps"
    obtain k v where kv: "p = (k, v)" by (cases p)
    from Attr_Dict.prems p kv have s: "NUL \<notin> set k" "text_safe svc v"
      by (auto simp: list_all_iff)
    have "v \<in> Basic_BNFs.snds p" using kv by simp
    from Attr_Dict.IH [OF p this s(2)] s(1) kv
    show "(case p of (k, v) \<Rightarrow> (c_str k, clone v)) = p" by (simp add: c_str_id)
  qed
  then show ?case by simp
qed simp_all

lemma token_start_plain:
  "token_start c \<Longrightarrow> \<not> is_special c"
  "token_start c \<Longrightarrow> c \<noteq> NUL"
  "token_start c \<Longrightarrow> c \<noteq> CHR '']''"
  "token_start c \<Longrightarrow> c \<noteq> CHR ''}''"
  by (simp_all add: token_start_def)

lemma string_to_attribute_Integer:
  assumes a: "at cfg p (text_of (Attr_Integer w) @ rest)" and s: "stops rest"
  shows "string_to_attribute env (Suc f) cfg p out
           = Inr (p + length (text_of (Attr_Integer w)), Attr_Integer w)"
proof -
  obtain d ds where d: "d < 10" "dec_digits (unat w) = digit_char d # ds"
    using dec_digits_Cons by blast
  from a d have a': "at cfg p (digit_char d # ds @ rest)" by simp
  have sk: "skip_special_symbols cfg p = Inr p"
    by (rule skip_at_char [OF a']) (rule digit_char_plain(1) [OF d(1)])
  have dr: "deref cfg p = Inr (digit_char d)" using a' by (rule at_Cons_deref)
  from a have a2: "at cfg p (dec_digits (unat w) @ rest)" by simp
  show ?thesis
    using sk dr digit_char_plain [OF d(1)] decode_bare_number [OF a2 s]
    by simp
qed

lemma string_to_attribute_Bool:
  assumes a: "at cfg p (text_of (Attr_Bool b) @ rest)"
  shows "string_to_attribute env (Suc f) cfg p out
           = Inr (p + length (text_of (Attr_Bool b)), Attr_Bool b)"
proof (cases b)
  case True
  with a have a1: "at cfg p (''true'' @ rest)" by simp
  then have a': "at cfg p (CHR ''t'' # ''rue'' @ rest)" by simp
  have sk: "skip_special_symbols cfg p = Inr p"
    by (rule skip_at_char [OF a']) (simp add: is_special_def)
  show ?thesis
    using sk at_Cons_deref [OF a'] decode_bare_true [OF a1] True
    by (simp add: quote_def dquote_def)
next
  case False
  with a have a1: "at cfg p (''false'' @ rest)" by simp
  then have a': "at cfg p (CHR ''f'' # ''alse'' @ rest)" by simp
  have sk: "skip_special_symbols cfg p = Inr p"
    by (rule skip_at_char [OF a']) (simp add: is_special_def)
  show ?thesis
    using sk at_Cons_deref [OF a'] decode_bare_false [OF a1] False
    by (simp add: quote_def dquote_def)
qed

lemma string_to_attribute_String:
  assumes a: "at cfg p (text_of (Attr_String s) @ rest)" and safe: "text_safe svc (Attr_String s)"
  shows "string_to_attribute env (Suc f) cfg p out
           = Inr (p + length (text_of (Attr_String s)), Attr_String s)"
proof -
  from a have a': "at cfg p (quote # s @ quote # rest)" by simp
  have sk: "skip_special_symbols cfg p = Inr p"
    by (rule skip_at_char [OF a']) (simp add: is_special_def quote_def)
  from safe have c: "quote \<notin> set s" "NUL \<notin> set s" by simp_all
  show ?thesis
    using sk at_Cons_deref [OF a'] decode_string_clean [OF a' c]
    by simp
qed

lemma string_to_attribute_Data:
  assumes a: "at cfg p (text_of (Attr_Data bs) @ rest)" and s: "stops rest"
  shows "string_to_attribute env (Suc f) cfg p out
           = Inr (p + length (text_of (Attr_Data bs)), Attr_Data bs)"
proof -
  from a have a': "at cfg p (CHR ''('' # commas (map hex2 bs) @ CHR '')'' # rest)" by simp
  have sk: "skip_special_symbols cfg p = Inr p"
    by (rule skip_at_char [OF a']) (simp add: is_special_def)
  show ?thesis
    using sk at_Cons_deref [OF a'] decode_data_text [OF a' s]
    by (simp add: quote_def dquote_def)
qed

lemma list_loop_close:
  "at cfg p (CHR '']'' # rest) \<Longrightarrow> list_loop env (Suc f) cfg p item out = Inr (p, out)"
  by (simp add: at_Cons_deref)

lemma list_loop_text:
  assumes IH: "\<And>x cfg p rest fuel out. x \<in> set xs \<Longrightarrow> at cfg p (text_of x @ rest) \<Longrightarrow>
      stops rest \<Longrightarrow> length (text_of x) < fuel \<Longrightarrow>
      string_to_attribute env fuel cfg p out = Inr (p + length (text_of x), x)"
    and safe: "list_all (text_safe svc) xs"
    and a: "at cfg p (commas (map text_of xs) @ CHR '']'' # rest)"
    and f: "length (commas (map text_of xs)) + 2 \<le> fuel"
  shows "list_loop env fuel cfg p item (Attr_List acc)
           = Inr (p + length (commas (map text_of xs)), Attr_List (acc @ xs))"
  using assms
proof (induction xs arbitrary: p fuel item acc rule: induct_list012)
  case 1
  then obtain f where fu: "fuel = Suc f" by (cases fuel) auto
  from 1 have a: "at cfg p (CHR '']'' # rest)" by simp
  have "list_loop env (Suc f) cfg p item (Attr_List acc) = Inr (p, Attr_List acc)"
    by (rule list_loop_close [OF a])
  then show ?case unfolding fu by simp
next
  case (2 x)
  from "2.prems"(4) obtain f where fu: "fuel = Suc f" "length (text_of x) < f"
    by (cases fuel) auto
  then obtain f' where fu': "f = Suc f'" by (cases f) auto
  from "2.prems"(2) have sx: "text_safe svc x" by simp
  obtain c r where cr: "text_of x = c # r" "token_start c" using text_of_start [OF sx] by blast
  from "2.prems"(3) have a: "at cfg p (text_of x @ CHR '']'' # rest)" by simp
  have dr: "deref cfg p = Inr c" using a cr at_Cons_deref by simp
  have st: "stops (CHR '']'' # rest)" by (simp add: stops_def)
  have dec: "string_to_attribute env f cfg p item = Inr (p + length (text_of x), x)"
    using "2.prems"(1) [OF _ a st fu(2)] by simp
  have e: "at cfg (p + length (text_of x)) (CHR '']'' # rest)" using at_append [OF a] .
  have sk: "skip_special_symbols cfg (p + length (text_of x)) = Inr (p + length (text_of x))"
    by (rule skip_at_char [OF e]) (simp add: is_special_def)
  have "list_loop env fuel cfg p item (Attr_List acc)
      = list_loop env f cfg (p + length (text_of x)) x (Attr_List (acc @ [x]))"
    unfolding fu(1)
    using dr token_start_plain [OF cr(2)] dec sk at_Cons_deref [OF e] clone_safe [OF sx]
    by (simp add: realloc_list_def op_index_def)
  also have "\<dots> = Inr (p + length (text_of x), Attr_List (acc @ [x]))"
    unfolding fu' by (rule list_loop_close [OF e])
  finally show ?case by simp
next
  case (3 x y zs)
  let ?L = "commas (map text_of (y # zs))"
  from "3.prems"(4) obtain f where fu: "fuel = Suc f" "length (text_of x) < f"
    "length ?L + 2 \<le> f"
    by (cases fuel) auto
  from "3.prems"(2) have sx: "text_safe svc x" and sy: "text_safe svc y" and sr: "list_all (text_safe svc) (y # zs)"
    by simp_all
  obtain c r where cr: "text_of x = c # r" "token_start c" using text_of_start [OF sx] by blast
  obtain c' r' where cr': "text_of y = c' # r'" "token_start c'" using text_of_start [OF sy] by blast
  from "3.prems"(3) have a: "at cfg p (text_of x @ CHR '','' # ?L @ CHR '']'' # rest)" by simp
  have dr: "deref cfg p = Inr c" using a cr at_Cons_deref by simp
  have st: "stops (CHR '','' # ?L @ CHR '']'' # rest)" by (simp add: stops_def)
  have dec: "string_to_attribute env f cfg p item = Inr (p + length (text_of x), x)"
    using "3.prems"(1) [OF _ a st fu(2)] by simp
  have e: "at cfg (p + length (text_of x)) (CHR '','' # ?L @ CHR '']'' # rest)"
    using at_append [OF a] .
  have sk: "skip_special_symbols cfg (p + length (text_of x)) = Inr (p + length (text_of x))"
    by (rule skip_at_char [OF e]) (simp add: is_special_def)
  have e2: "at cfg (Suc (p + length (text_of x))) (?L @ CHR '']'' # rest)"
    using e by (rule at_Cons_next)
  have "\<exists>r2. ?L @ CHR '']'' # rest = c' # r2" using cr' by (cases zs) auto
  then obtain r2 where r2: "?L @ CHR '']'' # rest = c' # r2" by blast
  have sk2: "skip_special_symbols cfg (Suc (p + length (text_of x)))
      = Inr (Suc (p + length (text_of x)))"
    using skip_at_char [of cfg "Suc (p + length (text_of x))" c' r2] e2 r2
      token_start_plain(1) [OF cr'(2)] by simp
  have "list_loop env fuel cfg p item (Attr_List acc)
      = list_loop env f cfg (Suc (p + length (text_of x))) x (Attr_List (acc @ [x]))"
    unfolding fu(1)
    using dr token_start_plain [OF cr(2)] dec sk at_Cons_deref [OF e] sk2 clone_safe [OF sx]
    by (simp add: realloc_list_def op_index_def)
  also have "\<dots> = Inr (Suc (p + length (text_of x)) + length ?L, Attr_List ((acc @ [x]) @ y # zs))"
    by (rule "3.IH"(2) [OF "3.prems"(1) sr e2 fu(3)]) simp_all
  finally show ?case by simp
qed

definition pair_text :: "string \<times> AttributeType \<Rightarrow> string" where
  "pair_text p = quote # fst p @ [quote, CHR '':''] @ text_of (snd p)"

lemma pair_text_fun: "pair_text = (\<lambda>p. quote # fst p @ [quote, CHR '':''] @ text_of (snd p))"
  by (rule ext) (simp add: pair_text_def)

lemma text_of_Dict: "text_of (Attr_Dict ps) = CHR ''{'' # commas (map pair_text ps) @ ''}''"
  by (simp add: pair_text_fun)

lemma dict_loop_close:
  "at cfg p (CHR ''}'' # rest) \<Longrightarrow> dict_loop env (Suc f) cfg p k v out = Inr (p, out)"
  by (simp add: at_Cons_deref)

lemma dict_round:
  assumes IH: "\<And>cfg p rest fuel out. at cfg p (text_of v @ rest) \<Longrightarrow> stops rest \<Longrightarrow>
      length (text_of v) < fuel \<Longrightarrow>
      string_to_attribute env fuel cfg p out = Inr (p + length (text_of v), v)"
    and safe: "quote \<notin> set k" "NUL \<notin> set k" "text_safe svc v"
    and fresh: "\<forall>q \<in> set acc. c_str (fst q) \<noteq> c_str k"
    and a: "at cfg p (pair_text (k, v) @ rest)"
    and st: "stops rest"
    and f: "length (pair_text (k, v)) < f"
    and p4: "p4 = p + length (pair_text (k, v))"
  shows "dict_loop env (Suc f) cfg p nk nv (Attr_Dict acc)
       = and_then (deref cfg p4) (\<lambda>c5.
           if c5 = CHR '','' then
             and_then (skip_special_symbols cfg (Suc p4)) (\<lambda>p6.
               dict_loop env f cfg p6 (Attr_String k) v (Attr_Dict (acc @ [(k, v)])))
           else dict_loop env f cfg p4 (Attr_String k) v (Attr_Dict (acc @ [(k, v)])))"
proof -
  from f obtain f' where fu: "f = Suc f'" by (cases f) auto
  let ?tail = "CHR '':'' # text_of v @ rest"
  from a have a1: "at cfg p (text_of (Attr_String k) @ ?tail)" by (simp add: pair_text_def)
  then have a1': "at cfg p (quote # k @ quote # ?tail)" by simp
  have dr: "deref cfg p = Inr quote" using a1' by (rule at_Cons_deref)
  have q: "quote \<noteq> CHR ''}''" "quote \<noteq> NUL" by (simp_all add: quote_def NUL_def)
  define p1 where "p1 = p + length (text_of (Attr_String k))"
  have key: "string_to_attribute env f cfg p nk = Inr (p1, Attr_String k)"
    unfolding fu p1_def by (rule string_to_attribute_String [OF a1]) (simp add: safe)
  have e1: "at cfg p1 ?tail" unfolding p1_def using at_append [OF a1] .
  have sk1: "skip_special_symbols cfg p1 = Inr p1"
    by (rule skip_at_char [OF e1]) (simp add: is_special_def)
  have d1: "deref cfg p1 = Inr (CHR '':'')" using e1 by (rule at_Cons_deref)
  have e2: "at cfg (Suc p1) (text_of v @ rest)" using e1 by (rule at_Cons_next)
  obtain c r where cr: "text_of v = c # r" "token_start c" using text_of_start [OF safe(3)] by blast
  have sk2: "skip_special_symbols cfg (Suc p1) = Inr (Suc p1)"
    using skip_at_char [of cfg "Suc p1" c "r @ rest"] e2 cr token_start_plain(1) [OF cr(2)]
    by simp
  have lv: "length (text_of v) < f" using f by (simp add: pair_text_def)
  have p4': "Suc p1 + length (text_of v) = p4" by (simp add: p4 p1_def pair_text_def)
  have val: "string_to_attribute env f cfg (Suc p1) nv = Inr (p4, v)"
    using IH [OF e2 st lv] p4' by simp
  have e4: "at cfg p4 rest" using at_append [OF e2] p4' by simp
  have sk4: "skip_special_symbols cfg p4 = Inr p4" by (rule skip_at_stops [OF e4 st])
  have st2: "\<And>g. and_then (op_key (Attr_Dict acc) k) (\<lambda>(out1, r). and_then (store out1 r v) g)
      = g (Attr_Dict (acc @ [(k, v)]))"
  proof -
    fix g
    from fresh have "find_key acc k 0 = None" by (simp add: find_key_None)
    then show "and_then (op_key (Attr_Dict acc) k) (\<lambda>(out1, r). and_then (store out1 r v) g)
      = g (Attr_Dict (acc @ [(k, v)]))"
      using safe(2) by (simp add: op_key_def nth_append c_str_id)
  qed
  show ?thesis
    using dr q key sk1 d1 sk2 val sk4 clone_safe [OF safe(3)]
    by (simp add: st2)
qed

lemma dict_loop_text:
  assumes IH: "\<And>x cfg p rest fuel out. x \<in> snd ` set ps \<Longrightarrow> at cfg p (text_of x @ rest) \<Longrightarrow>
      stops rest \<Longrightarrow> length (text_of x) < fuel \<Longrightarrow>
      string_to_attribute env fuel cfg p out = Inr (p + length (text_of x), x)"
    and safe: "list_all (\<lambda>q. quote \<notin> set (fst q) \<and> NUL \<notin> set (fst q) \<and> text_safe svc (snd q)) ps"
    and nul: "\<forall>q \<in> set acc. NUL \<notin> set (fst q)"
    and dist: "distinct (map fst (acc @ ps))"
    and a: "at cfg p (commas (map pair_text ps) @ CHR ''}'' # rest)"
    and f: "length (commas (map pair_text ps)) + 2 \<le> fuel"
  shows "dict_loop env fuel cfg p nk nv (Attr_Dict acc)
           = Inr (p + length (commas (map pair_text ps)), Attr_Dict (acc @ ps))"
  using assms
proof (induction ps arbitrary: p fuel nk nv acc rule: induct_list012)
  case 1
  then obtain f where fu: "fuel = Suc f" by (cases fuel) auto
  from 1 have a: "at cfg p (CHR ''}'' # rest)" by simp
  have "dict_loop env (Suc f) cfg p nk nv (Attr_Dict acc) = Inr (p, Attr_Dict acc)"
    by (rule dict_loop_close [OF a])
  then show ?case unfolding fu by simp
next
  case (2 x)
  obtain k v where x: "x = (k, v)" by (cases x)
  from "2.prems"(6) obtain f where fu: "fuel = Suc f" "length (pair_text (k, v)) < f"
    unfolding x by (cases fuel) auto
  then obtain f' where fu': "f = Suc f'" by (cases f) auto
  from "2.prems"(2) have sx: "quote \<notin> set k" "NUL \<notin> set k" "text_safe svc v" by (simp_all add: x)
  have fresh: "\<forall>q \<in> set acc. c_str (fst q) \<noteq> c_str k"
    using "2.prems"(3,4) sx(2) by (auto simp: x c_str_id)
  from "2.prems"(5) have a: "at cfg p (pair_text (k, v) @ CHR ''}'' # rest)" by (simp add: x)
  have st: "stops (CHR ''}'' # rest)" by (simp add: stops_def)
  define p4 where "p4 = p + length (pair_text (k, v))"
  have e: "at cfg p4 (CHR ''}'' # rest)" unfolding p4_def using at_append [OF a] .
  have ih: "\<And>cfg p rest fuel out. at cfg p (text_of v @ rest) \<Longrightarrow> stops rest \<Longrightarrow>
      length (text_of v) < fuel \<Longrightarrow>
      string_to_attribute env fuel cfg p out = Inr (p + length (text_of v), v)"
    by (rule "2.prems"(1)) (simp_all add: x)
  have "dict_loop env fuel cfg p nk nv (Attr_Dict acc)
      = dict_loop env f cfg p4 (Attr_String k) v (Attr_Dict (acc @ [(k, v)]))"
    unfolding fu(1)
    by (subst dict_round [OF ih sx fresh a st fu(2) p4_def]) (simp_all add: at_Cons_deref [OF e])
  also have "\<dots> = Inr (p4, Attr_Dict (acc @ [(k, v)]))"
    unfolding fu' by (rule dict_loop_close [OF e])
  finally show ?case by (simp add: x p4_def)
next
  case (3 x y zs)
  obtain k v where x: "x = (k, v)" by (cases x)
  let ?L = "commas (map pair_text (y # zs))"
  from "3.prems"(6) obtain f where fu: "fuel = Suc f" "length (pair_text (k, v)) < f"
    "length ?L + 2 \<le> f"
    unfolding x by (cases fuel) auto
  from "3.prems"(2) have sx: "quote \<notin> set k" "NUL \<notin> set k" "text_safe svc v"
    and sr: "list_all (\<lambda>q. quote \<notin> set (fst q) \<and> NUL \<notin> set (fst q) \<and> text_safe svc (snd q)) (y # zs)"
    by (simp_all add: x)
  have fresh: "\<forall>q \<in> set acc. c_str (fst q) \<noteq> c_str k"
    using "3.prems"(3,4) sx(2) by (auto simp: x c_str_id)
  from "3.prems"(5) have a: "at cfg p (pair_text (k, v) @ CHR '','' # ?L @ CHR ''}'' # rest)"
    by (simp add: x)
  have st: "stops (CHR '','' # ?L @ CHR ''}'' # rest)" by (simp add: stops_def)
  define p4 where "p4 = p + length (pair_text (k, v))"
  have e: "at cfg p4 (CHR '','' # ?L @ CHR ''}'' # rest)" unfolding p4_def using at_append [OF a] .
  have e2: "at cfg (Suc p4) (?L @ CHR ''}'' # rest)" using e by (rule at_Cons_next)
  have "\<exists>r2. ?L @ CHR ''}'' # rest = quote # r2" by (cases zs) (auto simp: pair_text_def)
  then obtain r2 where r2: "?L @ CHR ''}'' # rest = quote # r2" by blast
  have sk2: "skip_special_symbols cfg (Suc p4) = Inr (Suc p4)"
    using skip_at_char [of cfg "Suc p4" quote r2] e2 r2 by (simp add: is_special_def quote_def)
  have ih: "\<And>cfg p rest fuel out. at cfg p (text_of v @ rest) \<Longrightarrow> stops rest \<Longrightarrow>
      length (text_of v) < fuel \<Longrightarrow>
      string_to_attribute env fuel cfg p out = Inr (p + length (text_of v), v)"
    by (rule "3.prems"(1)) (simp_all add: x)
  have nul': "\<forall>q \<in> set (acc @ [(k, v)]). NUL \<notin> set (fst q)" using "3.prems"(3) sx(2) by simp
  have dist': "distinct (map fst ((acc @ [(k, v)]) @ y # zs))" using "3.prems"(4) by (simp add: x)
  have "dict_loop env fuel cfg p nk nv (Attr_Dict acc)
      = dict_loop env f cfg (Suc p4) (Attr_String k) v (Attr_Dict (acc @ [(k, v)]))"
    unfolding fu(1)
    by (subst dict_round [OF ih sx fresh a st fu(2) p4_def]) (simp_all add: at_Cons_deref [OF e] sk2)
  also have "\<dots> = Inr (Suc p4 + length ?L, Attr_Dict ((acc @ [(k, v)]) @ y # zs))"
    by (rule "3.IH"(2) [OF "3.prems"(1) sr nul' dist' e2 fu(3)]) simp_all
  finally show ?case by (simp add: x p4_def)
qed

lemma string_to_attribute_List:
  assumes IH: "\<And>x cfg p rest fuel out. x \<in> set xs \<Longrightarrow> at cfg p (text_of x @ rest) \<Longrightarrow>
      stops rest \<Longrightarrow> length (text_of x) < fuel \<Longrightarrow>
      string_to_attribute env fuel cfg p out = Inr (p + length (text_of x), x)"
    and safe: "list_all (text_safe svc) xs"
    and a: "at cfg p (text_of (Attr_List xs) @ rest)"
    and s: "stops rest"
    and f: "length (text_of (Attr_List xs)) < fuel"
  shows "string_to_attribute env fuel cfg p out
           = Inr (p + length (text_of (Attr_List xs)), Attr_List xs)"
proof -
  let ?L = "commas (map text_of xs)"
  from f obtain f' where fu: "fuel = Suc f'" "length ?L + 2 \<le> f'" by (cases fuel) auto
  from a have a': "at cfg p (CHR ''['' # ?L @ CHR '']'' # rest)" by simp
  have sk: "skip_special_symbols cfg p = Inr p"
    by (rule skip_at_char [OF a']) (simp add: is_special_def)
  have d: "deref cfg p = Inr (CHR ''['')" using a' by (rule at_Cons_deref)
  have e1: "at cfg (Suc p) (?L @ CHR '']'' # rest)" using a' by (rule at_Cons_next)
  have "\<exists>c r. ?L @ CHR '']'' # rest = c # r \<and> \<not> is_special c"
  proof (cases xs)
    case Nil
    then show ?thesis by (simp add: is_special_def)
  next
    case (Cons x ys)
    with safe have "text_safe svc x" by simp
    then obtain c r where "text_of x = c # r" "token_start c" using text_of_start by blast
    then show ?thesis using Cons token_start_plain(1) by (cases ys) auto
  qed
  then obtain c r where cr: "?L @ CHR '']'' # rest = c # r" "\<not> is_special c" by blast
  have sk1: "skip_special_symbols cfg (Suc p) = Inr (Suc p)"
    using skip_at_char [of cfg "Suc p" c r] e1 cr by simp
  have loop: "list_loop env f' cfg (Suc p) Attr_Nil (Attr_List [])
      = Inr (Suc p + length ?L, Attr_List ([] @ xs))"
    by (rule list_loop_text [OF IH safe e1 fu(2)])
  have e2: "at cfg (Suc p + length ?L) (CHR '']'' # rest)" using at_append [OF e1] .
  have e3: "at cfg (Suc (Suc p + length ?L)) rest" using e2 by (rule at_Cons_next)
  have sk3: "skip_special_symbols cfg (Suc (Suc p + length ?L)) = Inr (Suc (Suc p + length ?L))"
    by (rule skip_at_stops [OF e3 s])
  show ?thesis
    unfolding fu(1)
    using sk d sk1 loop sk3
    by (simp add: make_list_def quote_def dquote_def)
qed

lemma find_key_Some:
  "find_key ps key i = Some j \<Longrightarrow> i \<le> j \<and> j - i < length ps \<and> strcmp key (fst (ps ! (j - i))) = 0"
proof (induction ps arbitrary: i)
  case Nil
  then show ?case by simp
next
  case (Cons p ps)
  show ?case
  proof (cases "strcmp key (fst p) = 0")
    case True
    with Cons.prems show ?thesis by simp
  next
    case False
    with Cons.prems have "find_key ps key (Suc i) = Some j" by simp
    from Cons.IH [OF this] have "Suc i \<le> j" "j - Suc i < length ps"
      "strcmp key (fst (ps ! (j - Suc i))) = 0" by simp_all
    moreover from \<open>Suc i \<le> j\<close> have "j - i = Suc (j - Suc i)" by simp
    ultimately show ?thesis by simp
  qed
qed

lemma resolve_type_plain:
  assumes "\<forall>q \<in> set ps. NUL \<notin> set (fst q)
              \<and> (fst q = ''Type'' \<longrightarrow> type_ok (IFACE_SERVICE env) (snd q))"
  shows "resolve_type env (Attr_Dict ps) = Inr (Attr_Dict ps)"
proof (cases "has_key_loop ps ''Type''")
  case False
  then show ?thesis by (simp add: resolve_type_def has_key_def)
next
  case True
  have ty: "c_str ''Type'' = ''Type''" by (rule c_str_id) (simp add: NUL_def)
  from True have "find_key ps ''Type'' 0 \<noteq> None"
    by (auto simp: has_key_loop_iff find_key_None)
  then obtain j where j: "find_key ps ''Type'' 0 = Some j" by blast
  from find_key_Some [OF j] have lt: "j < length ps"
    and eq: "strcmp ''Type'' (fst (ps ! j)) = 0" by simp_all
  from lt have mem: "ps ! j \<in> set ps" by simp
  with assms have nul: "NUL \<notin> set (fst (ps ! j))" by blast
  from eq have "fst (ps ! j) = ''Type''" by (simp add: strcmp_eq_0 ty c_str_id [OF nul])
  with assms mem have "type_ok (IFACE_SERVICE env) (snd (ps ! j))" by blast
  then obtain s where s: "snd (ps ! j) = Attr_String s" "strcmp s (IFACE_SERVICE env) \<noteq> 0"
    by (cases "snd (ps ! j)") simp_all
  show ?thesis
    using True j lt s by (simp add: resolve_type_def has_key_def op_key_def)
qed

lemma string_to_attribute_Dict:
  assumes IH: "\<And>x cfg p rest fuel out. x \<in> snd ` set ps \<Longrightarrow> at cfg p (text_of x @ rest) \<Longrightarrow>
      stops rest \<Longrightarrow> length (text_of x) < fuel \<Longrightarrow>
      string_to_attribute env fuel cfg p out = Inr (p + length (text_of x), x)"
    and safe: "text_safe (IFACE_SERVICE env) (Attr_Dict ps)"
    and a: "at cfg p (text_of (Attr_Dict ps) @ rest)"
    and s: "stops rest"
    and f: "length (text_of (Attr_Dict ps)) < fuel"
  shows "string_to_attribute env fuel cfg p out
           = Inr (p + length (text_of (Attr_Dict ps)), Attr_Dict ps)"
proof -
  let ?L = "commas (map pair_text ps)"
  from f obtain f' where fu: "fuel = Suc f'" "length ?L + 2 \<le> f'"
    unfolding text_of_Dict by (cases fuel) auto
  from a have a': "at cfg p (CHR ''{'' # ?L @ CHR ''}'' # rest)" unfolding text_of_Dict by simp
  have sk: "skip_special_symbols cfg p = Inr p"
    by (rule skip_at_char [OF a']) (simp add: is_special_def)
  have d: "deref cfg p = Inr (CHR ''{'')" using a' by (rule at_Cons_deref)
  have e1: "at cfg (Suc p) (?L @ CHR ''}'' # rest)" using a' by (rule at_Cons_next)
  have "\<exists>c r. ?L @ CHR ''}'' # rest = c # r \<and> \<not> is_special c"
  proof (cases ps)
    case Nil
    then show ?thesis by (simp add: is_special_def)
  next
    case (Cons x ys)
    then show ?thesis by (cases ys) (auto simp: pair_text_def is_special_def quote_def)
  qed
  then obtain c r where cr: "?L @ CHR ''}'' # rest = c # r" "\<not> is_special c" by blast
  have sk1: "skip_special_symbols cfg (Suc p) = Inr (Suc p)"
    using skip_at_char [of cfg "Suc p" c r] e1 cr by simp
  from safe have safe': "list_all (\<lambda>q. quote \<notin> set (fst q) \<and> NUL \<notin> set (fst q) \<and> text_safe (IFACE_SERVICE env) (snd q)) ps"
    and dist: "distinct (map fst ([] @ ps))"
    and ty: "\<forall>q \<in> set ps. NUL \<notin> set (fst q)
              \<and> (fst q = ''Type'' \<longrightarrow> type_ok (IFACE_SERVICE env) (snd q))"
    by (auto simp: list_all_iff)
  have nul: "\<forall>q \<in> set ([] :: (string \<times> AttributeType) list). NUL \<notin> set (fst q)" by simp
  have loop: "dict_loop env f' cfg (Suc p) Attr_Nil Attr_Nil (Attr_Dict [])
      = Inr (Suc p + length ?L, Attr_Dict ([] @ ps))"
    by (rule dict_loop_text [OF IH safe' nul dist e1 fu(2)])
  have e2: "at cfg (Suc p + length ?L) (CHR ''}'' # rest)" using at_append [OF e1] .
  have e3: "at cfg (Suc (Suc p + length ?L)) rest" using e2 by (rule at_Cons_next)
  have sk3: "skip_special_symbols cfg (Suc (Suc p + length ?L)) = Inr (Suc (Suc p + length ?L))"
    by (rule skip_at_stops [OF e3 s])
  have "string_to_attribute env fuel cfg p out = Inr (Suc (Suc p + length ?L), Attr_Dict ps)"
    unfolding fu(1)
    using sk d sk1 loop sk3 resolve_type_plain [OF ty]
    by (simp add: make_dict_def quote_def dquote_def)
  then show ?thesis unfolding text_of_Dict by simp
qed

lemma string_to_attribute_text:
  "text_safe (IFACE_SERVICE env) v \<Longrightarrow> at cfg p (text_of v @ rest) \<Longrightarrow> stops rest \<Longrightarrow> length (text_of v) < fuel
     \<Longrightarrow> string_to_attribute env fuel cfg p out = Inr (p + length (text_of v), v)"
proof (induction v arbitrary: cfg p rest fuel out)
  case (Attr_Bool b)
  from Attr_Bool.prems(4) obtain f where fu: "fuel = Suc f" by (cases fuel) auto
  show ?case unfolding fu by (rule string_to_attribute_Bool [OF Attr_Bool.prems(2)])
next
  case (Attr_Integer w)
  from Attr_Integer.prems(4) obtain f where fu: "fuel = Suc f" by (cases fuel) auto
  show ?case unfolding fu by (rule string_to_attribute_Integer [OF Attr_Integer.prems(2,3)])
next
  case (Attr_String s)
  from Attr_String.prems(4) obtain f where fu: "fuel = Suc f" by (cases fuel) auto
  show ?case unfolding fu by (rule string_to_attribute_String [OF Attr_String.prems(2,1)])
next
  case (Attr_Data bs)
  from Attr_Data.prems(4) obtain f where fu: "fuel = Suc f" by (cases fuel) auto
  show ?case unfolding fu by (rule string_to_attribute_Data [OF Attr_Data.prems(2,3)])
next
  case (Attr_List xs)
  have ih: "\<And>x cfg p rest fuel out. x \<in> set xs \<Longrightarrow> at cfg p (text_of x @ rest) \<Longrightarrow>
      stops rest \<Longrightarrow> length (text_of x) < fuel \<Longrightarrow>
      string_to_attribute env fuel cfg p out = Inr (p + length (text_of x), x)"
  proof -
    fix x cfg p rest fuel out
    assume x: "x \<in> set xs" and r: "at cfg p (text_of x @ rest)" "stops rest"
      "length (text_of x) < fuel"
    from Attr_List.prems(1) x have "text_safe (IFACE_SERVICE env) x" by (simp add: list_all_iff)
    then show "string_to_attribute env fuel cfg p out = Inr (p + length (text_of x), x)"
      using r by (rule Attr_List.IH [OF x])
  qed
  from Attr_List.prems(1) have safe: "list_all (text_safe (IFACE_SERVICE env)) xs" by simp
  show ?case by (rule string_to_attribute_List [OF ih safe Attr_List.prems(2,3,4)])
next
  case (Attr_Dict ps)
  have ih: "\<And>x cfg p rest fuel out. x \<in> snd ` set ps \<Longrightarrow> at cfg p (text_of x @ rest) \<Longrightarrow>
      stops rest \<Longrightarrow> length (text_of x) < fuel \<Longrightarrow>
      string_to_attribute env fuel cfg p out = Inr (p + length (text_of x), x)"
  proof -
    fix x cfg p rest fuel out
    assume x: "x \<in> snd ` set ps" and r: "at cfg p (text_of x @ rest)" "stops rest"
      "length (text_of x) < fuel"
    from x obtain q where q: "q \<in> set ps" "x = snd q" by auto
    have xs: "x \<in> Basic_BNFs.snds q" unfolding q(2) by (cases q) simp
    from Attr_Dict.prems(1) q have "text_safe (IFACE_SERVICE env) x" by (auto simp: list_all_iff)
    then show "string_to_attribute env fuel cfg p out = Inr (p + length (text_of x), x)"
      using r by (rule Attr_Dict.IH [OF q(1) xs])
  qed
  show ?case by (rule string_to_attribute_Dict [OF ih Attr_Dict.prems])
qed simp_all

lemma load_byte_op_call:
  "n < length bs \<Longrightarrow> load_byte (Attr_Data bs) (fst (op_call (Attr_Data bs) n)) = Inr (bs ! n)"
  by (simp add: op_call_def)

lemma commas_snoc:
  "xs \<noteq> [] \<Longrightarrow> commas (xs @ [y]) = commas xs @ CHR '','' # y"
  by (induction xs rule: induct_list012) simp_all

lemma data_to_string_text:
  "n < length bs \<Longrightarrow> data_to_string (Attr_Data bs) n buf
     = Inr (buf @ concat (map (\<lambda>b. hex2 b @ '','') (butlast (drop n bs))))"
proof (induction "length bs - n" arbitrary: n buf)
  case 0
  then show ?case by simp
next
  case (Suc m)
  show ?case
  proof (cases "n < length bs - 1")
    case True
    then have n: "Suc n < length bs" by simp
    have m: "m = length bs - Suc n" using Suc.hyps(2) by simp
    have d: "drop n bs = bs ! n # drop (Suc n) bs" using Suc.prems by (simp add: Cons_nth_drop_Suc)
    have ne: "drop (Suc n) bs \<noteq> []" using n by simp
    show ?thesis
      using Suc.hyps(1) [OF m n] True ne
      by (subst data_to_string.simps)
        (simp add: load_byte_op_call [OF Suc.prems] d write_char_def write_byte_def hex2_def)
  next
    case False
    with Suc.prems have n: "Suc n = length bs" by simp
    then have "drop n bs = [bs ! n]" using Suc.prems
      by (metis Cons_nth_drop_Suc drop_all order_refl)
    then show ?thesis using False by (subst data_to_string.simps) simp
  qed
qed

lemma commas_butlast:
  "xs \<noteq> [] \<Longrightarrow> commas (map f xs) = concat (map (\<lambda>b. f b @ '','') (butlast xs)) @ f (last xs)"
  by (induction xs rule: induct_list012) simp_all

lemma attribute_to_string_Data:
  "attribute_to_string env (Attr_Data bs) buf = Inr (buf @ text_of (Attr_Data bs))"
proof (cases "bs = []")
  case True
  then show ?thesis by (simp add: write_char_def)
next
  case False
  then have l: "length bs - 1 < length bs" "0 < length bs" by simp_all
  have "bs ! (length bs - 1) = last bs" using False by (simp add: last_conv_nth)
  then show ?thesis
    using False l(2) load_byte_op_call [OF l(1)]
    by (simp add: data_to_string_text [OF l(2)]
        commas_butlast [OF False] write_char_def write_byte_def hex2_def)
qed

lemma list_to_string_Cons:
  assumes "\<And>buf. attribute_to_string env x buf = Inr (buf @ text_of x)"
    and "text_safe svc x" and "xs \<noteq> []"
  shows "list_to_string env (x # xs) buf = list_to_string env xs (buf @ text_of x @ '','')"
  using assms(3) by (simp add: assms(1) clone_safe [OF assms(2)] write_char_def)

lemma list_to_string_text:
  assumes "\<And>x buf. x \<in> set xs \<Longrightarrow> attribute_to_string env x buf = Inr (buf @ text_of x)"
    and "list_all (text_safe svc) xs"
  shows "list_to_string env xs buf = Inr (buf @ commas (map text_of xs))"
  using assms
proof (induction xs arbitrary: buf rule: induct_list012)
  case 1
  then show ?case by simp
next
  case (2 x)
  then show ?case by (simp add: clone_safe)
next
  case (3 x y zs)
  have hd: "\<And>buf. attribute_to_string env x buf = Inr (buf @ text_of x)"
    by (rule "3.prems"(1)) simp
  have tl: "\<And>v buf. v \<in> set (y # zs) \<Longrightarrow> attribute_to_string env v buf = Inr (buf @ text_of v)"
    by (rule "3.prems"(1)) auto
  from "3.prems"(2) have sx: "text_safe svc x" and st: "list_all (text_safe svc) (y # zs)"
    by simp_all
  have "list_to_string env (x # y # zs) buf
      = list_to_string env (y # zs) (buf @ text_of x @ '','')"
    by (rule list_to_string_Cons [OF hd sx]) simp
  also have "\<dots> = Inr ((buf @ text_of x @ '','') @ commas (map text_of (y # zs)))"
    by (rule "3.IH"(2) [OF tl st])
  finally show ?case by simp
qed

lemma dict_to_string_Cons:
  assumes "\<And>buf. attribute_to_string env (snd p) buf = Inr (buf @ text_of (snd p))"
    and "NUL \<notin> set (fst p)" and "ps \<noteq> []"
  shows "dict_to_string env (p # ps) buf = dict_to_string env ps (buf @ pair_text p @ '','')"
  using assms(2,3) by (simp add: assms(1) write_char_def write_string_def c_str_id pair_text_def)

lemma dict_to_string_text:
  assumes "\<And>x buf. x \<in> snd ` set ps \<Longrightarrow> attribute_to_string env x buf = Inr (buf @ text_of x)"
    and "\<forall>q \<in> set ps. NUL \<notin> set (fst q)"
  shows "dict_to_string env ps buf = Inr (buf @ commas (map pair_text ps))"
  using assms
proof (induction ps arbitrary: buf rule: induct_list012)
  case 1
  then show ?case by simp
next
  case (2 x)
  then show ?case by (simp add: write_char_def write_string_def c_str_id pair_text_def)
next
  case (3 x y zs)
  have hd: "\<And>buf. attribute_to_string env (snd x) buf = Inr (buf @ text_of (snd x))"
    by (rule "3.prems"(1)) simp
  have tl: "\<And>v buf. v \<in> snd ` set (y # zs) \<Longrightarrow> attribute_to_string env v buf = Inr (buf @ text_of v)"
    by (rule "3.prems"(1)) auto
  from "3.prems"(2) have nx: "NUL \<notin> set (fst x)" and nt: "\<forall>q \<in> set (y # zs). NUL \<notin> set (fst q)"
    by simp_all
  have "dict_to_string env (x # y # zs) buf
      = dict_to_string env (y # zs) (buf @ pair_text x @ '','')"
    by (rule dict_to_string_Cons [OF hd nx]) simp
  also have "\<dots> = Inr ((buf @ pair_text x @ '','') @ commas (map pair_text (y # zs)))"
    by (rule "3.IH"(2) [OF tl nt])
  finally show ?case by simp
qed

lemma attribute_to_string_text:
  "text_safe svc v \<Longrightarrow> attribute_to_string env v buf = Inr (buf @ text_of v)"
proof (induction v arbitrary: buf)
  case (Attr_Bool b)
  then show ?case by (simp add: write_string_def c_str_def)
next
  case (Attr_Integer w)
  then show ?case by (simp add: write_uint64_def)
next
  case (Attr_String s)
  then show ?case by (simp add: write_string_def write_char_def c_str_id)
next
  case (Attr_Data bs)
  show ?case by (rule attribute_to_string_Data)
next
  case (Attr_List xs)
  have ih: "\<And>x buf. x \<in> set xs \<Longrightarrow> attribute_to_string env x buf = Inr (buf @ text_of x)"
    using Attr_List by (simp add: list_all_iff)
  from Attr_List.prems have safe: "list_all (text_safe svc) xs" by simp
  show ?case by (simp add: list_to_string_text [OF ih safe] write_char_def)
next
  case (Attr_Dict ps)
  have ih: "\<And>x buf. x \<in> snd ` set ps \<Longrightarrow> attribute_to_string env x buf = Inr (buf @ text_of x)"
  proof -
    fix x buf
    assume "x \<in> snd ` set ps"
    then obtain q where q: "q \<in> set ps" "x = snd q" by auto
    have xs: "x \<in> Basic_BNFs.snds q" unfolding q(2) by (cases q) simp
    from Attr_Dict.prems q have "text_safe svc x" by (auto simp: list_all_iff)
    then show "attribute_to_string env x buf = Inr (buf @ text_of x)"
      by (rule Attr_Dict.IH [OF q(1) xs])
  qed
  from Attr_Dict.prems have nul: "\<forall>q \<in> set ps. NUL \<notin> set (fst q)" by (auto simp: list_all_iff)
  have "attribute_to_string env (Attr_Dict ps) buf
      = Inr (buf @ CHR ''{'' # commas (map pair_text ps) @ ''}'')"
    by (simp add: dict_to_string_text [OF ih nul] write_char_def)
  then show ?case unfolding text_of_Dict .
qed simp_all


section \<open>The claims\<close>

subsection \<open>Swap-remove\<close>

lemma remove_from_list_List:
  assumes "idx < length xs"
  shows "remove_from_list (Attr_List xs) idx
           = Inr (Attr_List (butlast (xs[idx := last xs])), Some Attr_Invalid, [])"
proof (cases "idx = length xs - 1")
  case True
  have "butlast (xs[idx := Attr_Invalid]) = butlast (xs[idx := last xs])"
    using True assms by (simp add: butlast_conv_take)
  then show ?thesis
    using True assms
    by (simp add: remove_from_list_def cut_last_cell_def op_index_def drop_last_cell_def
        attr_free_def)
next
  case False
  then have lt: "idx < length xs - 1" using assms by simp
  have l: "last xs = xs ! (length xs - 1)"
    using assms by (metis last_conv_nth length_greater_0_conv less_nat_zero_code list.size(3))
  have "butlast (xs[idx := Attr_Invalid, idx := xs[idx := Attr_Invalid] ! (length xs - 1),
          length xs - 1 := xs[idx := Attr_Invalid] ! idx]) = butlast (xs[idx := last xs])"
    using lt l by (simp add: butlast_conv_take)
  then show ?thesis
    using False assms lt
    by (simp add: remove_from_list_def cut_last_cell_def op_index_def drop_last_cell_def
        attr_free_def swap_list_item_def)
qed

text \<open>
  Claim C6. On a List of size at least 1, \<open>remove_from_list(idx)\<close> with a valid \<open>idx\<close>
  prints nothing and leaves a List one shorter. Element \<open>idx\<close> is released: the cell cut
  off the value is the one \<open>attr_free\<close> was called on, and it is left as \<open>attr_free\<close>
  leaves a cell (\<open>Attr_Invalid\<close>, size 0), not with the element it held. When \<open>idx\<close> is
  not the last index, the former last element stands at \<open>idx\<close> (the released cell was
  swapped to the end before the cut); every other remaining position keeps its element.
  When \<open>idx\<close> is the last index, every remaining position keeps its element, so the
  order of the others is unchanged.
\<close>

theorem remove_from_list_swap_remove:
  "idx < length xs \<Longrightarrow>
     (\<exists>ys cell. remove_from_list (Attr_List xs) idx = Inr (Attr_List ys, Some cell, [])
        \<and> cell = attr_free (xs ! idx) \<and> is_invalid cell \<and> attr_size cell = 0
        \<and> attr_size (Attr_List ys) = attr_size (Attr_List xs) - 1
        \<and> (idx \<noteq> length xs - 1 \<longrightarrow> ys ! idx = xs ! (length xs - 1))
        \<and> (\<forall>j < length ys. j \<noteq> idx \<longrightarrow> ys ! j = xs ! j))"
proof -
  assume a: "idx < length xs"
  have l: "last xs = xs ! (length xs - 1)"
    using a by (metis last_conv_nth length_greater_0_conv less_nat_zero_code list.size(3))
  let ?ys = "butlast (xs[idx := last xs])"
  have 1: "remove_from_list (Attr_List xs) idx = Inr (Attr_List ?ys, Some Attr_Invalid, [])"
    by (rule remove_from_list_List [OF a])
  have 0: "Attr_Invalid = attr_free (xs ! idx) \<and> is_invalid Attr_Invalid
      \<and> attr_size Attr_Invalid = 0"
    by (simp add: attr_free_def)
  have 2: "attr_size (Attr_List ?ys) = attr_size (Attr_List xs) - 1" by simp
  have 3: "idx \<noteq> length xs - 1 \<longrightarrow> ?ys ! idx = xs ! (length xs - 1)"
    using a l by (simp add: nth_butlast)
  have 4: "\<forall>j < length ?ys. j \<noteq> idx \<longrightarrow> ?ys ! j = xs ! j"
    by (simp add: nth_butlast)
  from 0 1 2 3 4 show ?thesis by blast
qed

theorem remove_from_list_swap_remove_witness:
  "(0::nat) < length [Attr_String ''a'', Attr_Integer 2, Attr_Integer 3]
   \<and> (\<exists>ys. remove_from_list (Attr_List [Attr_String ''a'', Attr_Integer 2, Attr_Integer 3]) 0
              = Inr (Attr_List ys, Some Attr_Invalid, [])
        \<and> ys ! 0 = Attr_Integer 3 \<and> ys ! 1 = Attr_Integer 2 \<and> length ys = 2)"
proof -
  let ?xs = "[Attr_String ''a'', Attr_Integer 2, Attr_Integer 3]"
  have h: "(0::nat) < length ?xs" by simp
  from remove_from_list_swap_remove [OF h]
  obtain ys cell where r: "remove_from_list (Attr_List ?xs) 0 = Inr (Attr_List ys, Some cell, [])"
    and c: "cell = attr_free (?xs ! 0)"
    and s: "attr_size (Attr_List ys) = attr_size (Attr_List ?xs) - 1"
    and f: "0 \<noteq> length ?xs - 1 \<longrightarrow> ys ! 0 = ?xs ! (length ?xs - 1)"
    and o: "\<forall>j < length ys. j \<noteq> 0 \<longrightarrow> ys ! j = ?xs ! j"
    by blast
  from c have c': "cell = Attr_Invalid" by (simp add: attr_free_def)
  from s have len: "length ys = 2" by simp
  from f have f': "ys ! 0 = Attr_Integer 3" by simp
  from o len have "ys ! 1 = ?xs ! 1" by simp
  then have o': "ys ! 1 = Attr_Integer 2" by simp
  from h r c' len f' o' show ?thesis by blast
qed

subsection \<open>Lookup by key\<close>

lemma has_key_Dict:
  "has_key (Attr_Dict ps) k = Inr (\<exists>p \<in> set ps. c_str (fst p) = c_str k \<and> \<not> is_nil (snd p))"
  by (simp add: has_key_def has_key_loop_iff)

text \<open>
  Claim C7. On a Dict none of whose keys equals \<open>k\<close> (as C strings), \<open>operator[](k)\<close>
  appends the pair (\<open>k\<close>, Nil), so the size grows by 1, and returns the reference to the
  value of that new, last pair, which reads as Nil. A second lookup of \<open>k\<close> in the
  resulting Dict changes nothing and returns the same reference.
\<close>

theorem op_key_auto_vivify:
  assumes "\<forall>p \<in> set ps. c_str (fst p) \<noteq> c_str k"
  shows "op_key (Attr_Dict ps) k = Inr (Attr_Dict (ps @ [(c_str k, Attr_Nil)]), Ref_dict_value (length ps))
       \<and> attr_size (Attr_Dict (ps @ [(c_str k, Attr_Nil)])) = attr_size (Attr_Dict ps) + 1
       \<and> load (Attr_Dict (ps @ [(c_str k, Attr_Nil)])) (Ref_dict_value (length ps)) = Inr Attr_Nil
       \<and> op_key (Attr_Dict (ps @ [(c_str k, Attr_Nil)])) k
           = Inr (Attr_Dict (ps @ [(c_str k, Attr_Nil)]), Ref_dict_value (length ps))"
proof -
  from assms have n: "find_key ps k 0 = None" by (simp add: find_key_None)
  have 1: "op_key (Attr_Dict ps) k = Inr (Attr_Dict (ps @ [(c_str k, Attr_Nil)]), Ref_dict_value (length ps))"
    using n by (simp add: op_key_def)
  have 4: "op_key (Attr_Dict (ps @ [(c_str k, Attr_Nil)])) k
           = Inr (Attr_Dict (ps @ [(c_str k, Attr_Nil)]), Ref_dict_value (length ps))"
    using find_key_append_new [OF n, of Attr_Nil] by (simp add: op_key_def)
  from 1 4 show ?thesis by simp
qed

theorem op_key_auto_vivify_witness:
  "op_key (Attr_Dict [(''a'', Attr_Integer 1)]) ''x''
       = Inr (Attr_Dict [(''a'', Attr_Integer 1), (''x'', Attr_Nil)], Ref_dict_value 1)
   \<and> op_key (Attr_Dict [(''a'', Attr_Integer 1), (''x'', Attr_Nil)]) ''x''
       = Inr (Attr_Dict [(''a'', Attr_Integer 1), (''x'', Attr_Nil)], Ref_dict_value 1)"
proof -
  have h: "\<forall>p \<in> set [(''a'', Attr_Integer 1)]. c_str (fst p) \<noteq> c_str ''x''"
    by (simp add: c_str_def)
  have c: "c_str ''x'' = ''x''" by (simp add: c_str_def)
  from op_key_auto_vivify [OF h] h c show ?thesis by simp
qed

text \<open>
  Claim C10. On a Dict, \<open>has_key(k)\<close> is true exactly when some pair has the key \<open>k\<close> and
  a value that is not Nil. In particular, when no key equals \<open>k\<close>, the Dict that
  \<open>operator[](k)\<close> leaves (with its new Nil-valued pair) still answers false.
\<close>

theorem has_key_non_nil:
  "has_key (Attr_Dict ps) k = Inr (\<exists>p \<in> set ps. c_str (fst p) = c_str k \<and> \<not> is_nil (snd p))
   \<and> ((\<forall>p \<in> set ps. c_str (fst p) \<noteq> c_str k) \<longrightarrow>
        (\<exists>d r. op_key (Attr_Dict ps) k = Inr (d, r) \<and> has_key d k = Inr False))"
proof -
  have 2: "(\<exists>d r. op_key (Attr_Dict ps) k = Inr (d, r) \<and> has_key d k = Inr False)"
    if a: "\<forall>p \<in> set ps. c_str (fst p) \<noteq> c_str k"
  proof -
    from a have n: "find_key ps k 0 = None" by (simp add: find_key_None)
    have o: "op_key (Attr_Dict ps) k = Inr (Attr_Dict (ps @ [(c_str k, Attr_Nil)]), Ref_dict_value (length ps))"
      using n by (simp add: op_key_def)
    have "has_key (Attr_Dict (ps @ [(c_str k, Attr_Nil)])) k = Inr False"
      using a by (simp add: has_key_Dict)
    with o show ?thesis by blast
  qed
  from has_key_Dict 2 show ?thesis by blast
qed

theorem has_key_non_nil_witness:
  "has_key (Attr_Dict [(''a'', Attr_Integer 1), (''x'', Attr_Nil)]) ''a'' = Inr True
   \<and> has_key (Attr_Dict [(''a'', Attr_Integer 1), (''x'', Attr_Nil)]) ''x'' = Inr False
   \<and> (\<exists>d r. op_key (Attr_Dict [(''a'', Attr_Integer 1)]) ''x'' = Inr (d, r) \<and> has_key d ''x'' = Inr False)"
proof -
  have h: "\<forall>p \<in> set [(''a'', Attr_Integer 1)]. c_str (fst p) \<noteq> c_str ''x''"
    by (simp add: c_str_def)
  have a: "has_key (Attr_Dict [(''a'', Attr_Integer 1), (''x'', Attr_Nil)]) ''a'' = Inr True"
    using has_key_non_nil [of "[(''a'', Attr_Integer 1), (''x'', Attr_Nil)]" "''a''"]
    by (simp add: c_str_def)
  have b: "has_key (Attr_Dict [(''a'', Attr_Integer 1), (''x'', Attr_Nil)]) ''x'' = Inr False"
    using has_key_non_nil [of "[(''a'', Attr_Integer 1), (''x'', Attr_Nil)]" "''x''"]
    by (simp add: c_str_def)
  from has_key_non_nil [of "[(''a'', Attr_Integer 1)]" "''x''"] h a b show ?thesis by blast
qed

subsection \<open>Byte access\<close>

text \<open>
  Claim C5. The claim asks for a diagnostic at every index \<open>i >= size\<close>. The guard of
  \<open>operator()\<close> is \<open>idx > size()\<close>, so at \<open>idx = size()\<close> nothing is printed, for any
  value; on the 3-byte Data \<open>(01,AB,FF)\<close> the call with index 3 returns the reference
  \<open>u_.data_bytes[3]\<close>, which is not a byte of the value.
\<close>

theorem op_call_at_size:
  "snd (op_call a (attr_size a)) = []
   \<and> op_call (Attr_Data [0x01, 0xAB, 0xFF]) 3 = (Ref_data_bytes 3, [])
   \<and> load_byte (Attr_Data [0x01, 0xAB, 0xFF]) (Ref_data_bytes 3) = Inl (Out_of_bounds 3)"
  by (simp add: op_call_def)

subsection \<open>Trimming\<close>

text \<open>
  Claim C4. The claim asks \<open>trim_list(start, end)\<close> to remove the elements of
  \<open>[start, end)\<close> and keep the others in order. On the List \<open>[10,11,12,13,14]\<close>,
  \<open>trim_list(1, 2)\<close> should leave \<open>[10,12,13,14]\<close>; the loop, whose counter starts at
  \<open>start\<close> instead of 0, leaves \<open>[10,11,13,14]\<close>.
\<close>

theorem trim_list_inner_range:
  "trim_list (Attr_List [Attr_Integer 10, Attr_Integer 11, Attr_Integer 12, Attr_Integer 13,
      Attr_Integer 14]) 1 2
     = Inr (Attr_List [Attr_Integer 10, Attr_Integer 11, Attr_Integer 13, Attr_Integer 14])"
  by code_simp

subsection \<open>Sorting\<close>

text \<open>
  Claim C8. For a List whose elements are all Strings, or all signed integers, or all
  unsigned integers, \<open>sort\<close> (with any \<open>idx\<close>, which flat elements never use) prints
  nothing and leaves a List with the same multiset of elements in which every adjacent
  pair is in order, \<open>list[i] <= list[i+1]\<close>, under the comparison of that kind; indeed
  every earlier element is below or equal to every later one. This covers the empty and
  the already sorted List.
\<close>

theorem sort_attr_sorts:
  assumes "(\<forall>x \<in> set xs. is_string x) \<or> (\<forall>x \<in> set xs. is_int64 x) \<or> (\<forall>x \<in> set xs. is_uint64 x)"
  shows "\<exists>ys. sort_attr (Attr_List xs) lst_idx = Inr (Attr_List ys, [])
      \<and> mset ys = mset xs
      \<and> (\<forall>i. i + 1 < length ys \<longrightarrow> attr_le (ys ! i) (ys ! (i + 1)))
      \<and> sorted_wrt attr_le ys"
proof -
  from assms have hom: "homogeneous (set xs)" by (simp add: homogeneous_def)
  from quicksort_List [OF hom order_refl, of 0 lst_idx "[]"]
  obtain ys where
    q: "quicksort (Attr_List xs) 0 (int (length xs) - 1) lst_idx [] = Inr (Attr_List ys, [])"
    and m: "mset ys = mset xs"
    and S: "\<forall>k l. 0 \<le> k \<and> k \<le> l \<and> l < length xs \<longrightarrow> attr_le (ys ! k) (ys ! l)"
    by auto
  have len: "length ys = length xs" using m by (rule mset_eq_length)
  have r: "sort_attr (Attr_List xs) lst_idx = Inr (Attr_List ys, [])"
    using q by (simp add: sort_attr_def)
  have a: "\<forall>i. i + 1 < length ys \<longrightarrow> attr_le (ys ! i) (ys ! (i + 1))"
    using S len by simp
  have s: "sorted_wrt attr_le ys"
    unfolding sorted_wrt_iff_nth_less using S len by simp
  from r m a s show ?thesis by blast
qed

theorem sort_attr_sorts_witness:
  "sort_attr (Attr_List [Attr_String ''b'', Attr_String ''a'', Attr_String ''ab'']) 0
     = Inr (Attr_List [Attr_String ''a'', Attr_String ''ab'', Attr_String ''b''], [])
   \<and> (\<exists>ys. sort_attr (Attr_List [Attr_String ''b'', Attr_String ''a'', Attr_String ''ab'']) 0
              = Inr (Attr_List ys, [])
         \<and> mset ys = mset [Attr_String ''b'', Attr_String ''a'', Attr_String ''ab'']
         \<and> sorted_wrt attr_le ys)"
proof -
  have h: "(\<forall>x \<in> set [Attr_String ''b'', Attr_String ''a'', Attr_String ''ab'']. is_string x)
    \<or> (\<forall>x \<in> set [Attr_String ''b'', Attr_String ''a'', Attr_String ''ab'']. is_int64 x)
    \<or> (\<forall>x \<in> set [Attr_String ''b'', Attr_String ''a'', Attr_String ''ab'']. is_uint64 x)"
    by simp
  have e: "sort_attr (Attr_List [Attr_String ''b'', Attr_String ''a'', Attr_String ''ab'']) 0
     = Inr (Attr_List [Attr_String ''a'', Attr_String ''ab'', Attr_String ''b''], [])"
    by code_simp
  from sort_attr_sorts [OF h, of 0] e show ?thesis by blast
qed


text \<open>
  Claim C3. The claim asks \<open>sort\<close> on a value that is not a List to print the
  diagnostic and change nothing. \<open>sort\<close> has no \<open>return\<close> after the diagnostic and goes
  on into \<open>quicksort\<close>. On the Dict \<open>{'a':2,'b':1}\<close>, \<open>partition\<close> compares the values
  through \<open>operator[]\<close> (2 is not below the pivot 1) and then calls
  \<open>swap_list_item(0, 1)\<close>, which overwrites the cells \<open>u_.list[0]\<close> and \<open>u_.list[1]\<close> of a
  value whose union holds the pair array of the Dict.
\<close>

theorem sort_attr_dict_not_noop:
  "sort_attr (Attr_Dict [(''a'', Attr_Integer 2), (''b'', Attr_Integer 1)]) 0
     = Inl Wrong_union_member"
  by code_simp


subsection \<open>Decoding\<close>

text \<open>
  Claim C2. The claim asks the decoder to produce Nil at the token \<open>None\<close>. The \<open>None\<close>
  branch of \<open>string_to_attribute\<close> only moves \<open>pcur\<close> by 4 and never writes \<open>out\<close>, so
  \<open>out\<close> keeps what it held. Decoding \<open>[1,None]\<close> into a fresh value gives the List
  \<open>[1, 1]\<close>: the loop's \<open>new_item\<close> still holds the 1 of the round before. Decoding
  \<open>None\<close> into a value that holds the integer 1 leaves the integer 1.
\<close>

theorem string_to_attribute_None_keeps_out:
  "string_to_attribute env (Suc (Suc (Suc (Suc fuel)))) ''[1,None]'' 0 Attr_Nil
     = Inr (8, Attr_List [Attr_Integer 1, Attr_Integer 1])
   \<and> string_to_attribute env (Suc fuel) ''None'' 0 (Attr_Integer 1) = Inr (4, Attr_Integer 1)"
  by (simp add: decoder_eval cong: and_then_weak_cong)

text \<open>
  Claim C9. Inside a Data token, wherever the read of a byte starts before the
  terminator, the two rounds of the digit loop succeed and leave \<open>pcur\<close> two further,
  whatever the two bytes are: also when the second one is the terminator. On the
  truncated input \<open>(A\<close> (terminator at index 2) the byte read that starts at index 1
  leaves \<open>pcur\<close> at 3, past the terminator, and the next read of the decoder (in
  \<open>skip_special_symbols\<close>) is outside the buffer, at index 3.
\<close>

theorem hex_pair_reads_past_end:
  "(p < length cfg \<longrightarrow> (\<exists>b. hex_pair cfg p = Inr (b, p + 2)))
   \<and> hex_pair ''(A'' 1 = Inr (0xF0, 3)
   \<and> length ''(A'' < 3
   \<and> string_to_attribute env (Suc fuel) ''(A'' 0 out = Inl (Out_of_bounds 3)"
proof -
  have "\<exists>b. hex_pair cfg p = Inr (b, p + 2)" if "p < length cfg"
    using that by (simp add: hex_pair_def hex_digit_step_def deref_def)
  moreover have "hex_pair ''(A'' 1 = Inr (0xF0, 3)"
    by (simp add: decoder_eval cong: and_then_weak_cong)
  moreover have "string_to_attribute env (Suc fuel) ''(A'' 0 out = Inl (Out_of_bounds 3)"
    by (simp add: decoder_eval cong: and_then_weak_cong)
  ultimately show ?thesis by simp
qed

theorem hex_pair_reads_past_end_witness:
  "(1::nat) < length ''(0'' \<and> (\<exists>b. hex_pair ''(0'' 1 = Inr (b, 1 + 2)) \<and> length ''(0'' < 1 + 2"
proof -
  have h: "(1::nat) < length ''(0''" by simp
  have l: "length ''(0'' < 1 + 2" by simp
  have "(1::nat) < length ''(0'' \<longrightarrow> (\<exists>b. hex_pair ''(0'' 1 = Inr (b, 1 + 2))"
    by (rule conjunct1 [OF hex_pair_reads_past_end [of 1 "''(0''"]])
  with h have "\<exists>b. hex_pair ''(0'' 1 = Inr (b, 1 + 2)" by blast
  with h l show ?thesis by blast
qed

subsection \<open>Round trip through the text form\<close>

text \<open>
  Claim C1. The claim says that decoding the text of any value without an interface
  reference gives the value back. The text form has no mark for the unsigned kind, no
  escape for a quote inside a string and no reader for a fraction, and a Dict whose
  \<open>Type\<close> is \<open>IFACE_SERVICE\<close> is read as an interface reference, so this fails: the
  UnsignedInt 5 is written as \<open>5\<close>, which decodes to the Integer 5; the String \<open>a'b\<close> is
  written as \<open>'a'b'\<close>, which decodes to the String \<open>a\<close>; the Float 0.0 is written as
  \<open>0.0000\<close>, which decodes to the Integer 0; and the Dict
  \<open>{'Type':'IService','ModuleName':'x'}\<close> decodes to the interface reference that the
  registry gives for \<open>x\<close>. On the text \<open>{'Type':1}\<close> of the Dict whose \<open>Type\<close> is
  the Integer 1 the decoder reads the string member of a value that holds an integer.
\<close>

theorem round_trip_counterexample:
  "to_config example_env (Attr_UInteger 5) = Inr ''5''
   \<and> from_config example_env (Suc 0) Attr_Nil ''5'' = Inr (Attr_Integer 5)
   \<and> to_config example_env (Attr_String [CHR ''a'', quote, CHR ''b''])
       = Inr [quote, CHR ''a'', quote, CHR ''b'', quote]
   \<and> from_config example_env (Suc 0) Attr_Nil [quote, CHR ''a'', quote, CHR ''b'', quote]
       = Inr (Attr_String ''a'')
   \<and> to_config example_env (Attr_Floating 0) = Inr ''0.0000''
   \<and> from_config example_env (Suc 0) Attr_Nil ''0.0000'' = Inr (Attr_Integer 0)
   \<and> to_config example_env
        (Attr_Dict [(''Type'', Attr_String ''IService''), (''ModuleName'', Attr_String ''x'')])
       = Inr ''{'Type':'IService','ModuleName':'x'}''
   \<and> from_config example_env (Suc (Suc (Suc (Suc (Suc 0))))) Attr_Nil
        ''{'Type':'IService','ModuleName':'x'}''
       = Inr (Attr_Interface (IFace ''IService'' ''x''))
   \<and> to_config example_env (Attr_Dict [(''Type'', Attr_Integer 1)]) = Inr ''{'Type':1}''
   \<and> from_config example_env (Suc (Suc (Suc (Suc 0)))) Attr_Nil ''{'Type':1}''
       = Inl Wrong_union_member"
proof -
  have 1: "to_config example_env (Attr_UInteger 5) = Inr ''5''"
    by code_simp
  have 2: "from_config example_env (Suc 0) Attr_Nil ''5'' = Inr (Attr_Integer 5)"
    by (simp add: from_config_def decoder_eval cong: and_then_weak_cong)
  have 3: "to_config example_env (Attr_String [CHR ''a'', quote, CHR ''b''])
       = Inr [quote, CHR ''a'', quote, CHR ''b'', quote]"
    by (simp add: to_config_def write_string_def write_char_def c_str_def quote_def)
  have 4: "from_config example_env (Suc 0) Attr_Nil [quote, CHR ''a'', quote, CHR ''b'', quote]
       = Inr (Attr_String ''a'')"
    by (simp add: from_config_def decoder_eval cong: and_then_weak_cong)
  have 5: "to_config example_env (Attr_Floating 0) = Inr ''0.0000''"
    by code_simp
  have 6: "from_config example_env (Suc 0) Attr_Nil ''0.0000'' = Inr (Attr_Integer 0)"
    by (simp add: from_config_def decoder_eval cong: and_then_weak_cong)
  have 7: "to_config example_env
        (Attr_Dict [(''Type'', Attr_String ''IService''), (''ModuleName'', Attr_String ''x'')])
       = Inr ''{'Type':'IService','ModuleName':'x'}''"
    by code_simp
  have 8: "from_config example_env (Suc (Suc (Suc (Suc (Suc 0))))) Attr_Nil
        ''{'Type':'IService','ModuleName':'x'}''
       = Inr (Attr_Interface (IFace ''IService'' ''x''))"
    by (simp add: from_config_def decoder_eval resolve_type_def has_key_def op_key_def
        strcmp_def example_env_def cong: and_then_weak_cong)
  have 9: "to_config example_env (Attr_Dict [(''Type'', Attr_Integer 1)]) = Inr ''{'Type':1}''"
    by code_simp
  have 10: "from_config example_env (Suc (Suc (Suc (Suc 0)))) Attr_Nil ''{'Type':1}''
       = Inl Wrong_union_member"
    by (simp add: from_config_def decoder_eval resolve_type_def has_key_def op_key_def
        strcmp_def example_env_def cong: and_then_weak_cong)
  from 1 2 3 4 5 6 7 8 9 10 show ?thesis by blast
qed

text \<open>
  Claim C1, amended. A value is \<open>text_safe\<close> when it is built from Integer, Bool, String,
  Data, List and Dict only, no String and no Dict key holds a quote or a NUL, and in every
  Dict the keys are pairwise distinct and the value of a key \<open>Type\<close>, if there is one, is
  a String other than \<open>IFACE_SERVICE\<close>. For such a value \<open>to_config\<close> returns a text,
  and \<open>from_config\<close> on that text, into any value and with fuel above the length of the
  text, returns the value itself: the same kind, size and content, Lists and Dicts cell
  by cell in the order written.
\<close>

theorem to_config_from_config_round_trip:
  assumes "text_safe (IFACE_SERVICE env) v"
  shows "\<exists>text. to_config env v = Inr text
           \<and> (\<forall>fuel this. length text < fuel \<longrightarrow> from_config env fuel this text = Inr v)"
proof -
  have enc: "to_config env v = Inr (text_of v)"
    using attribute_to_string_text [OF assms, of env "[]"] by (simp add: to_config_def)
  have dec: "from_config env fuel this (text_of v) = Inr v" if "length (text_of v) < fuel"
    for fuel this
  proof -
    have a: "at (text_of v) 0 (text_of v @ [])" by (simp add: at_def)
    have s: "stops []" by (simp add: stops_def)
    show ?thesis
      using string_to_attribute_text [OF assms a s that, of this]
      by (simp add: from_config_def)
  qed
  from enc dec show ?thesis by blast
qed

theorem to_config_from_config_round_trip_witness:
  "text_safe (IFACE_SERVICE example_env)
     (Attr_Dict [(''Type'', Attr_String ''x''),
                 (''k'', Attr_List [Attr_Integer 7, Attr_Bool True, Attr_Data [0x1F, 0x02]])])
   \<and> to_config example_env
        (Attr_Dict [(''Type'', Attr_String ''x''),
                    (''k'', Attr_List [Attr_Integer 7, Attr_Bool True, Attr_Data [0x1F, 0x02]])])
       = Inr ''{'Type':'x','k':[7,true,(1F,02)]}''
   \<and> from_config example_env 40 Attr_Nil ''{'Type':'x','k':[7,true,(1F,02)]}''
       = Inr (Attr_Dict [(''Type'', Attr_String ''x''),
                 (''k'', Attr_List [Attr_Integer 7, Attr_Bool True, Attr_Data [0x1F, 0x02]])])"
proof -
  let ?v = "Attr_Dict [(''Type'', Attr_String ''x''),
                 (''k'', Attr_List [Attr_Integer 7, Attr_Bool True, Attr_Data [0x1F, 0x02]])]"
  let ?t = "''{'Type':'x','k':[7,true,(1F,02)]}''"
  have s: "text_safe (IFACE_SERVICE example_env) ?v" by code_simp
  have t: "text_of ?v = ?t" by code_simp
  have e: "to_config example_env ?v = Inr ?t"
    using attribute_to_string_text [OF s, of example_env "[]"] t by (simp add: to_config_def)
  from to_config_from_config_round_trip [OF s] e
  have "\<forall>fuel this. length ?t < fuel \<longrightarrow> from_config example_env fuel this ?t = Inr ?v"
    by simp
  then have "length ?t < 40 \<longrightarrow> from_config example_env 40 Attr_Nil ?t = Inr ?v"
    by blast
  then have "from_config example_env 40 Attr_Nil ?t = Inr ?v" by simp
  with s e show ?thesis by blast
qed

end
